theory Spec2Isabelle
  imports Main
begin

section \<open>JavaScript strings and values\<close>

text \<open>
  A JavaScript string is modelled as a list of characters, each standing for one UTF-16
  code unit in the range U+0000..U+00FF. The operations below are the built-in string
  methods the router calls, with their results on that range.
\<close>

definition isWordChar :: "char \<Rightarrow> bool" where
  \<comment> \<open>the class \<open>\w\<close> of a regular expression without the unicode flag\<close>
  "isWordChar c =
     (let n = (of_char c :: nat)
      in (48 \<le> n \<and> n \<le> 57) \<or> (65 \<le> n \<and> n \<le> 90) \<or> n = 95 \<or> (97 \<le> n \<and> n \<le> 122))"

definition isDigitChar :: "char \<Rightarrow> bool" where
  "isDigitChar c = (let n = (of_char c :: nat) in 48 \<le> n \<and> n \<le> 57)"

definition isSpaceChar :: "char \<Rightarrow> bool" where
  \<comment> \<open>the class \<open>\s\<close>: tab, line feed, vertical tab, form feed, carriage return, space, U+00A0\<close>
  "isSpaceChar c = (let n = (of_char c :: nat) in (9 \<le> n \<and> n \<le> 13) \<or> n = 32 \<or> n = 160)"

definition isLineTerminator :: "char \<Rightarrow> bool" where
  "isLineTerminator c = (let n = (of_char c :: nat) in n = 10 \<or> n = 13)"

definition lowerChar :: "char \<Rightarrow> char" where
  \<comment> \<open>one code unit of \<open>String.prototype.toLowerCase\<close>: A-Z, and U+00C0..U+00DE but U+00D7\<close>
  "lowerChar c =
     (let n = (of_char c :: nat)
      in if (65 \<le> n \<and> n \<le> 90) \<or> (192 \<le> n \<and> n \<le> 222 \<and> n \<noteq> 215)
         then char_of (n + 32) else c)"

definition toLowerCase :: "string \<Rightarrow> string" where
  "toLowerCase s = map lowerChar s"

definition startsWith :: "string \<Rightarrow> string \<Rightarrow> bool" where
  \<comment> \<open>\<open>s.startsWith(p)\<close>\<close>
  "startsWith s p = (take (length p) s = p)"

fun indexOf :: "string \<Rightarrow> char \<Rightarrow> nat option" where
  \<comment> \<open>\<open>s.indexOf(c)\<close> for a one-character needle; \<open>None\<close> is the result -1\<close>
  "indexOf [] c = None"
| "indexOf (x # xs) c = (if x = c then Some 0 else map_option Suc (indexOf xs c))"

definition hasChar :: "string \<Rightarrow> char \<Rightarrow> bool" where
  "hasChar s c = (indexOf s c \<noteq> None)"

fun joinWith :: "string \<Rightarrow> string list \<Rightarrow> string" where
  \<comment> \<open>\<open>xs.join(sep)\<close>\<close>
  "joinWith sep [] = []"
| "joinWith sep [x] = x"
| "joinWith sep (x # y # ys) = x @ sep @ joinWith sep (y # ys)"

fun replaceFirst :: "string \<Rightarrow> string \<Rightarrow> string \<Rightarrow> string" where
  \<comment> \<open>\<open>s.replace(p, r)\<close> with a non-empty string pattern \<open>p\<close>: the first occurrence only\<close>
  "replaceFirst p r [] = []"
| "replaceFirst p r (c # s) =
     (if take (length p) (c # s) = p then r @ drop (length p) (c # s)
      else c # replaceFirst p r s)"

definition replaceAllChar :: "char \<Rightarrow> string \<Rightarrow> string \<Rightarrow> string" where
  \<comment> \<open>\<open>s.replace(/c/g, r)\<close> for a pattern that is one escaped character\<close>
  "replaceAllChar c r s = concat (map (\<lambda>x. if x = c then r else [x]) s)"

text \<open>
  The pattern \<open>/:(\w+)/g\<close> cuts a string into the characters it leaves alone and the
  tokens it matches: at a colon followed by at least one word character the match takes
  all the word characters that follow (the quantifier is greedy), and the scan goes on
  after the match.
\<close>

datatype piece = Lit char | Token string

function pieces :: "string \<Rightarrow> piece list" where
  "pieces [] = []"
| "pieces (c # s) =
     (if c = CHR '':'' \<and> takeWhile isWordChar s \<noteq> []
      then Token (takeWhile isWordChar s) # pieces (dropWhile isWordChar s)
      else Lit c # pieces s)"
  by pat_completeness auto
termination
  by (relation "measure length") (auto simp: less_Suc_eq_le length_dropWhile_le)

definition replaceTokens :: "(string \<Rightarrow> string) \<Rightarrow> string \<Rightarrow> string" where
  \<comment> \<open>\<open>s.replace(/:(\w+)/g, (a, name) => f(name))\<close>\<close>
  "replaceTokens f s = concat (map (\<lambda>p. case p of Lit c \<Rightarrow> [c] | Token n \<Rightarrow> f n) (pieces s))"

definition tokenNames :: "string \<Rightarrow> string list" where
  \<comment> \<open>the names the callback of the replacement is called with, in order\<close>
  "tokenNames s = concat (map (\<lambda>p. case p of Lit c \<Rightarrow> [] | Token n \<Rightarrow> [n]) (pieces s))"

fun templateLiteral :: "(string \<Rightarrow> string option) \<Rightarrow> piece list \<Rightarrow> string option" where
  \<comment> \<open>the value of a template literal with one substitution per token: the characters
      and the strings of the substituted values, as far as these are given\<close>
  "templateLiteral f [] = Some []"
| "templateLiteral f (Lit c # ps) = map_option (\<lambda>t. c # t) (templateLiteral f ps)"
| "templateLiteral f (Token n # ps) =
     (case f n of
        None \<Rightarrow> None
      | Some v \<Rightarrow> map_option (\<lambda>t. v @ t) (templateLiteral f ps))"

text \<open>Structured validation errors, as the validators of the type library report them.\<close>

record ValidationErrorItem =
  errPath :: string
  errCode :: string
  errMessage :: string

text \<open>
  The values a request or a caller hands to the router. \<open>JNum n\<close> is the Number with the
  integer value \<open>n\<close>; \<open>JObj\<close> is a plain object with its own properties in insertion order,
  none of them a function; \<open>JBodyValidation\<close> is an instance of the class \<open>BodyValidation\<close>.
  An operation on a value returns \<open>None\<close> where the embedding does not give its result.
\<close>

datatype jsval =
    JUndefined
  | JNull
  | JNum int
  | JStr string
  | JObj "(string \<times> jsval) list"
  | JBodyValidation "ValidationErrorItem list"

function digitsOf :: "nat \<Rightarrow> string" where
  "digitsOf n = (if n < 10 then [char_of (48 + n)] else digitsOf (n div 10) @ [char_of (48 + n mod 10)])"
  by pat_completeness auto
termination
  by (relation "measure (\<lambda>n. n)") auto

definition toString :: "jsval \<Rightarrow> string option" where
  \<comment> \<open>the abstract operation ToString, as a template literal and \<open>encodeURIComponent\<close> apply it.
      An integer is printed by its digits up to \<open>2^53\<close>; beyond, not every integer is a
      Number, and from \<open>10^21\<close> on the digits give way to the exponent form: \<open>None\<close>. An object
      prints through \<open>Object.prototype.toString\<close>; an own property \<open>toString\<close> would be taken
      in its place: \<open>None\<close>.\<close>
  "toString v =
     (case v of
        JUndefined \<Rightarrow> Some ''undefined''
      | JNull \<Rightarrow> Some ''null''
      | JNum n \<Rightarrow>
          (if abs n \<le> 2 ^ 53
           then Some (if n < 0 then CHR ''-'' # digitsOf (nat (- n)) else digitsOf (nat n))
           else None)
      | JStr s \<Rightarrow> Some s
      | JObj ob \<Rightarrow> (if map_of ob ''toString'' = None then Some ''[object Object]'' else None)
      | JBodyValidation _ \<Rightarrow> Some ''[object Object]'')"

definition getProperty :: "(string \<times> jsval) list \<Rightarrow> string \<Rightarrow> jsval" where
  \<comment> \<open>\<open>o.k\<close> on a plain object: an own property, else \<open>undefined\<close>\<close>
  "getProperty ob k = (case map_of ob k of Some v \<Rightarrow> v | None \<Rightarrow> JUndefined)"

definition optionalMember :: "jsval \<Rightarrow> string \<Rightarrow> jsval option" where
  \<comment> \<open>\<open>v?.k\<close>: \<open>undefined\<close> on \<open>undefined\<close> and \<open>null\<close>, a property read on a plain object. A
      string, a number and a \<open>BodyValidation\<close> instance have properties of their own kind
      (\<open>length\<close>, \<open>errors\<close>, methods), which the embedding does not give: \<open>None\<close>.\<close>
  "optionalMember v k =
     (case v of
        JUndefined \<Rightarrow> Some JUndefined
      | JNull \<Rightarrow> Some JUndefined
      | JObj ob \<Rightarrow> Some (getProperty ob k)
      | _ \<Rightarrow> None)"

definition hexDigit :: "nat \<Rightarrow> char" where
  "hexDigit n = (if n < 10 then char_of (48 + n) else char_of (55 + n))"

definition percentByte :: "nat \<Rightarrow> string" where
  "percentByte b = [CHR ''%'', hexDigit (b div 16), hexDigit (b mod 16)]"

definition isUriUnreserved :: "char \<Rightarrow> bool" where
  \<comment> \<open>letters, digits and \<open>- _ . ! ~ * ' ( )\<close>\<close>
  "isUriUnreserved c =
     (let n = (of_char c :: nat)
      in (48 \<le> n \<and> n \<le> 57) \<or> (65 \<le> n \<and> n \<le> 90) \<or> (97 \<le> n \<and> n \<le> 122)
         \<or> n = 45 \<or> n = 95 \<or> n = 46 \<or> n = 33 \<or> n = 126 \<or> n = 42 \<or> n = 39 \<or> n = 40 \<or> n = 41)"

definition encodeChar :: "char \<Rightarrow> string" where
  \<comment> \<open>the UTF-8 bytes of the code unit, each percent-encoded\<close>
  "encodeChar c =
     (let n = (of_char c :: nat)
      in if isUriUnreserved c then [c]
         else if n < 128 then percentByte n
         else percentByte (192 + n div 64) @ percentByte (128 + n mod 64))"

definition encodeURIComponent :: "jsval \<Rightarrow> string option" where
  "encodeURIComponent v = map_option (\<lambda>s. concat (map encodeChar s)) (toString v)"

section \<open>Route configuration\<close>

datatype ParameterKind = BodyParameter | QueryParameter

record RouteParameterConfig =
  parameterType :: "ParameterKind option"
  typePath :: "string option"
  optional :: bool
  configName :: string

datatype ClassRef = BodyValidationClass | NamedClass string

text \<open>
  \<open>PropertySchema\<close> is the type library's description of one handler parameter; the
  router reads its name, its type tag (\<open>'any'\<close>, \<open>'class'\<close>, \<open>'string'\<close>, ...), its class
  and the property names of that class, and sets \<open>isOptional\<close>.
\<close>

record PropertySchema =
  propertyName :: string
  propertyType :: string
  classType :: "ClassRef option"
  classProperties :: "string list"
  isOptional :: bool

text \<open>
  \<open>methodProperties\<close> stands for \<open>action\<close>: it is what
  \<open>getClassSchema(action.controller).getMethodProperties(action.methodName)\<close> returns.
  A dictionary of parameter expressions holds, for a name, the string the source
  concatenates into the pattern; an absent or empty entry is falsy.
\<close>

record RouteConfig =
  name :: string
  httpMethod :: string
  path :: string
  baseUrl :: string
  parameterRegularExpressions :: "string \<rightharpoonup> string"
  parameters :: "string \<rightharpoonup> RouteParameterConfig"
  methodProperties :: "PropertySchema list"

text \<open>
  What the router imports from outside the repository and the language: Node's
  \<open>path.join\<close> and \<open>querystring.parse\<close>, and the type library's validator and converter of
  a property. A validator is called with a value, a path (a string or \<open>undefined\<close>) and
  the array it appends to; here it returns what it appends.
\<close>

record externals =
  join :: "string \<Rightarrow> string \<Rightarrow> string"
  parseQueryString :: "string \<Rightarrow> jsval"
  jitValidateProperty :: "PropertySchema \<Rightarrow> jsval \<Rightarrow> jsval \<Rightarrow> ValidationErrorItem list"
  getPropertyXtoClassFunction :: "PropertySchema \<Rightarrow> jsval \<Rightarrow> jsval"

definition getFullPath :: "externals \<Rightarrow> RouteConfig \<Rightarrow> string" where
  "getFullPath X r =
     (let p = (if baseUrl r \<noteq> [] then join X (baseUrl r) (path r) else path r)
      in if startsWith p ''/'' then p else CHR ''/'' # p)"

section \<open>Parsing a route\<close>

record ParsedRouteParameter =
  property :: PropertySchema
  config :: "RouteParameterConfig option"
  regexPosition :: "nat option"

definition body :: "ParsedRouteParameter \<Rightarrow> bool" where
  "body p = (case config p of Some c \<Rightarrow> parameterType c = Some BodyParameter | None \<Rightarrow> False)"

definition query :: "ParsedRouteParameter \<Rightarrow> bool" where
  "query p = (case config p of Some c \<Rightarrow> parameterType c = Some QueryParameter | None \<Rightarrow> False)"

definition parameterTypePath :: "ParsedRouteParameter \<Rightarrow> string option" where
  \<comment> \<open>the getter \<open>typePath\<close>\<close>
  "parameterTypePath p = (case config p of Some c \<Rightarrow> typePath c | None \<Rightarrow> None)"

definition getName :: "ParsedRouteParameter \<Rightarrow> string" where
  "getName p = propertyName (property p)"

definition isPartOfPath :: "ParsedRouteParameter \<Rightarrow> bool" where
  "isPartOfPath p = (regexPosition p \<noteq> None)"

fun assignIndices :: "string list \<Rightarrow> nat \<Rightarrow> (string \<rightharpoonup> nat) \<Rightarrow> (string \<rightharpoonup> nat)" where
  \<comment> \<open>the callback's \<open>parameterNames[name] = argumentIndex; argumentIndex++\<close>, call by call\<close>
  "assignIndices [] i m = m"
| "assignIndices (n # ns) i m = assignIndices ns (Suc i) (m(n \<mapsto> i))"

definition tokenPattern :: "RouteConfig \<Rightarrow> string \<Rightarrow> string" where
  "tokenPattern r n =
     (case parameterRegularExpressions r n of
        Some e \<Rightarrow> (if e \<noteq> [] then ''('' @ e @ '')'' else ''([^/]+)'')
      | None \<Rightarrow> ''([^/]+)'')"

definition parseRoutePathToRegex :: "externals \<Rightarrow> RouteConfig \<Rightarrow> string \<times> (string \<rightharpoonup> nat)" where
  \<comment> \<open>the pair \<open>(regex, parameterNames)\<close>\<close>
  "parseRoutePathToRegex X r =
     (let p = getFullPath X r
      in (replaceTokens (tokenPattern r) p, assignIndices (tokenNames p) 0 Map.empty))"

record ParsedRoute =
  parsedRouteConfig :: RouteConfig
  regex :: string
  customValidationErrorHandling :: "nat option"
  parsedParameters :: "ParsedRouteParameter list"

text \<open>
  \<open>customValidationErrorHandling\<close> refers to a parameter object; the model names it by
  its index in the parameter list, so that \<open>=== parameter\<close> is equality of indices.
\<close>

definition parseParameter :: "RouteConfig \<Rightarrow> (string \<rightharpoonup> nat) \<Rightarrow> PropertySchema \<Rightarrow> ParsedRouteParameter" where
  "parseParameter r names p =
     (let decoratorData = parameters r (propertyName p);
          p' = (case decoratorData of
                  Some d \<Rightarrow> (if optional d then p\<lparr>isOptional := True\<rparr> else p)
                | None \<Rightarrow> p)
      in \<lparr>property = p', config = decoratorData, regexPosition = names (propertyName p)\<rparr>)"

definition isBodyValidation :: "PropertySchema \<Rightarrow> bool" where
  "isBodyValidation p = (propertyType p = ''class'' \<and> classType p = Some BodyValidationClass)"

fun lastSink :: "PropertySchema list \<Rightarrow> nat \<Rightarrow> nat option \<Rightarrow> nat option" where
  \<comment> \<open>the loop's assignments to \<open>customValidationErrorHandling\<close>: the last one stands\<close>
  "lastSink [] i acc = acc"
| "lastSink (p # ps) i acc = lastSink ps (Suc i) (if isBodyValidation p then Some i else acc)"

definition parseRouteControllerAction :: "externals \<Rightarrow> RouteConfig \<Rightarrow> ParsedRoute" where
  "parseRouteControllerAction X r =
     (let parsedPath = parseRoutePathToRegex X r
      in \<lparr>parsedRouteConfig = r,
          regex = fst parsedPath,
          customValidationErrorHandling = lastSink (methodProperties r) 0 None,
          parsedParameters = map (parseParameter r (snd parsedPath)) (methodProperties r)\<rparr>)"

definition dotToUrlPath :: "string \<Rightarrow> string" where
  "dotToUrlPath dotPath =
     (if indexOf dotPath CHR ''.'' = None then dotPath
      else replaceFirst ''][''  ''['' (replaceAllChar CHR ''.'' ''][''  dotPath) @ '']'')"

section \<open>Regular expressions\<close>

text \<open>
  The router hands the pattern source to \<open>new RegExp\<close> and matches with
  \<open>String.prototype.match\<close>. The fragment of the pattern language modelled here has
  characters, \<open>.\<close>, character classes with ranges and the escapes \<open>\d \w \s\<close>
  (and their complements), the assertions \<open>^\<close> and \<open>$\<close>, capturing groups, alternation
  and the greedy quantifiers \<open>* + ?\<close>. A source outside the fragment is reported as
  \<open>OutsideModel\<close>; the embedding says nothing about it.
\<close>

datatype citem = CRange char char | CDigit | CNotDigit | CWord | CNotWord | CSpace | CNotSpace

datatype rx =
    REmpty
  | RChar char
  | RAny
  | RClass bool "citem list"
  | RBol
  | REol
  | RSeq rx rx
  | RAlt rx rx
  | RStar rx
  | RPlus rx
  | ROpt rx
  | RGroup nat rx

datatype build_error = SyntaxError | OutsideModel

subsection \<open>Reading a pattern source\<close>

datatype frame = Frame "rx list" "rx list" nat
  \<comment> \<open>the alternatives closed so far and the terms of the open one, both latest first,
      and the number of the group the frame belongs to\<close>

datatype plast = LStart | LOpen | LAtom | LQuant | LAssert

datatype catom = AChar char | ADash | AEscape citem

datatype pmode =
    PNormal
  | PEscape
  | PClassStart
  | PClass bool "catom list"
  | PClassEscape bool "catom list"

datatype pstate = PState "frame list" nat plast pmode

definition mkSeq :: "rx list \<Rightarrow> rx" where
  "mkSeq ts = foldr RSeq ts REmpty"

fun mkAlt :: "rx list \<Rightarrow> rx" where
  "mkAlt [] = REmpty"
| "mkAlt [a] = a"
| "mkAlt (a # b # bs) = RAlt a (mkAlt (b # bs))"

definition closeFrame :: "rx list \<Rightarrow> rx list \<Rightarrow> rx" where
  \<comment> \<open>the disjunction of a frame: its alternatives in source order\<close>
  "closeFrame alts cur = mkAlt (rev (mkSeq (rev cur) # alts))"

definition isSyntaxChar :: "char \<Rightarrow> bool" where
  "isSyntaxChar c = (c \<in> set ''^$.*+?()[]{}|'' \<or> c = CHR 0x5C)"

definition isAsciiPunctuation :: "char \<Rightarrow> bool" where
  \<comment> \<open>the characters an identity escape is read for: printable ASCII that is no letter,
      digit or underscore\<close>
  "isAsciiPunctuation c = (let n = (of_char c :: nat) in 33 \<le> n \<and> n \<le> 126 \<and> \<not> isWordChar c)"

definition classEscape :: "char \<Rightarrow> citem option" where
  "classEscape c =
     (if c = CHR ''d'' then Some CDigit else if c = CHR ''D'' then Some CNotDigit
      else if c = CHR ''w'' then Some CWord else if c = CHR ''W'' then Some CNotWord
      else if c = CHR ''s'' then Some CSpace else if c = CHR ''S'' then Some CNotSpace
      else None)"

fun classItems :: "catom list \<Rightarrow> build_error + citem list" where
  \<comment> \<open>the atoms of a class in source order: \<open>a-b\<close> is a range, a dash that is first or last
      is itself; a dash next to a class escape or to another dash is left outside\<close>
  "classItems [] = Inr []"
| "classItems (AChar a # ADash # AChar b # rest) =
     (if (of_char a :: nat) \<le> of_char b
      then (case classItems rest of Inl e \<Rightarrow> Inl e | Inr is \<Rightarrow> Inr (CRange a b # is))
      else Inl SyntaxError)"
| "classItems (AChar a # ADash # x # rest) = Inl OutsideModel"
| "classItems (AEscape e # ADash # x # rest) = Inl OutsideModel"
| "classItems (ADash # ADash # rest) = Inl OutsideModel"
| "classItems (AChar a # rest) =
     (case classItems rest of Inl e \<Rightarrow> Inl e | Inr is \<Rightarrow> Inr (CRange a a # is))"
| "classItems (AEscape e # rest) =
     (case classItems rest of Inl e' \<Rightarrow> Inl e' | Inr is \<Rightarrow> Inr (e # is))"
| "classItems (ADash # rest) =
     (case classItems rest of Inl e \<Rightarrow> Inl e | Inr is \<Rightarrow> Inr (CRange CHR ''-'' CHR ''-'' # is))"

definition pushAtom :: "rx \<Rightarrow> frame list \<Rightarrow> nat \<Rightarrow> build_error + pstate" where
  "pushAtom a st n =
     (case st of
        [] \<Rightarrow> Inl OutsideModel
      | Frame alts cur k # fs \<Rightarrow> Inr (PState (Frame alts (a # cur) k # fs) n LAtom PNormal))"

definition pushAssertion :: "rx \<Rightarrow> frame list \<Rightarrow> nat \<Rightarrow> build_error + pstate" where
  "pushAssertion a st n =
     (case st of
        [] \<Rightarrow> Inl OutsideModel
      | Frame alts cur k # fs \<Rightarrow> Inr (PState (Frame alts (a # cur) k # fs) n LAssert PNormal))"

definition quantify :: "(rx \<Rightarrow> rx) \<Rightarrow> char \<Rightarrow> frame list \<Rightarrow> nat \<Rightarrow> plast \<Rightarrow> build_error + pstate" where
  \<comment> \<open>a quantifier applies to the atom before it; after a quantifier or an opening
      parenthesis a question mark starts syntax outside the fragment, as does a
      quantifier after an assertion; elsewhere there is nothing to repeat\<close>
  "quantify q c st n l =
     (case l of
        LAtom \<Rightarrow>
          (case st of
             Frame alts (a # cur) k # fs \<Rightarrow> Inr (PState (Frame alts (q a # cur) k # fs) n LQuant PNormal)
           | _ \<Rightarrow> Inl OutsideModel)
      | LQuant \<Rightarrow> (if c = CHR ''?'' then Inl OutsideModel else Inl SyntaxError)
      | LOpen \<Rightarrow> (if c = CHR ''?'' then Inl OutsideModel else Inl SyntaxError)
      | LStart \<Rightarrow> Inl SyntaxError
      | LAssert \<Rightarrow> Inl OutsideModel)"

definition parseNormal :: "frame list \<Rightarrow> nat \<Rightarrow> plast \<Rightarrow> char \<Rightarrow> build_error + pstate" where
  "parseNormal st n l c =
     (if c = CHR ''('' then Inr (PState (Frame [] [] n # st) (Suc n) LOpen PNormal)
      else if c = CHR '')'' then
        (case st of
           Frame alts cur k # Frame alts' cur' k' # fs \<Rightarrow>
             Inr (PState (Frame alts' (RGroup k (closeFrame alts cur) # cur') k' # fs) n LAtom PNormal)
         | _ \<Rightarrow> Inl SyntaxError)
      else if c = CHR ''|'' then
        (case st of
           Frame alts cur k # fs \<Rightarrow> Inr (PState (Frame (mkSeq (rev cur) # alts) [] k # fs) n LStart PNormal)
         | [] \<Rightarrow> Inl OutsideModel)
      else if c = CHR ''^'' then pushAssertion RBol st n
      else if c = CHR ''$'' then pushAssertion REol st n
      else if c = CHR ''.'' then pushAtom RAny st n
      else if c = CHR ''*'' then quantify RStar c st n l
      else if c = CHR ''+'' then quantify RPlus c st n l
      else if c = CHR ''?'' then quantify ROpt c st n l
      else if c = CHR ''['' then Inr (PState st n l PClassStart)
      else if c = CHR 0x5C then Inr (PState st n l PEscape)
      else if c = CHR '']'' \<or> c = CHR ''{'' \<or> c = CHR ''}'' then Inl OutsideModel
      else pushAtom (RChar c) st n)"

definition parseEscape :: "frame list \<Rightarrow> nat \<Rightarrow> char \<Rightarrow> build_error + pstate" where
  "parseEscape st n c =
     (case classEscape c of
        Some e \<Rightarrow> pushAtom (RClass False [e]) st n
      | None \<Rightarrow> (if isAsciiPunctuation c then pushAtom (RChar c) st n else Inl OutsideModel))"

definition parseClass :: "frame list \<Rightarrow> nat \<Rightarrow> bool \<Rightarrow> catom list \<Rightarrow> char \<Rightarrow> build_error + pstate" where
  \<comment> \<open>the atoms are kept latest first\<close>
  "parseClass st n neg atoms c =
     (if c = CHR '']'' then
        (case classItems (rev atoms) of
           Inl e \<Rightarrow> Inl e
         | Inr is \<Rightarrow> pushAtom (RClass neg is) st n)
      else if c = CHR 0x5C then Inr (PState st n LAtom (PClassEscape neg atoms))
      else if c = CHR ''-'' then Inr (PState st n LAtom (PClass neg (ADash # atoms)))
      else Inr (PState st n LAtom (PClass neg (AChar c # atoms))))"

definition parseClassEscape :: "frame list \<Rightarrow> nat \<Rightarrow> bool \<Rightarrow> catom list \<Rightarrow> char \<Rightarrow> build_error + pstate" where
  "parseClassEscape st n neg atoms c =
     (case classEscape c of
        Some e \<Rightarrow> Inr (PState st n LAtom (PClass neg (AEscape e # atoms)))
      | None \<Rightarrow>
          (if isAsciiPunctuation c then Inr (PState st n LAtom (PClass neg (AChar c # atoms)))
           else Inl OutsideModel))"

fun parseStep :: "pstate \<Rightarrow> char \<Rightarrow> build_error + pstate" where
  "parseStep (PState st n l PNormal) c = parseNormal st n l c"
| "parseStep (PState st n l PEscape) c = parseEscape st n c"
| "parseStep (PState st n l PClassStart) c =
     (if c = CHR ''^'' then Inr (PState st n l (PClass True [])) else parseClass st n False [] c)"
| "parseStep (PState st n l (PClass neg atoms)) c = parseClass st n neg atoms c"
| "parseStep (PState st n l (PClassEscape neg atoms)) c = parseClassEscape st n neg atoms c"

fun parseChars :: "pstate \<Rightarrow> string \<Rightarrow> build_error + pstate" where
  "parseChars st [] = Inr st"
| "parseChars st (c # cs) =
     (case parseStep st c of Inl e \<Rightarrow> Inl e | Inr st' \<Rightarrow> parseChars st' cs)"

definition parseFinish :: "pstate \<Rightarrow> build_error + rx" where
  \<comment> \<open>at the end of the source every group and class must be closed\<close>
  "parseFinish ps =
     (case ps of
        PState [Frame alts cur k] n l PNormal \<Rightarrow> Inr (closeFrame alts cur)
      | _ \<Rightarrow> Inl SyntaxError)"

definition newRegExp :: "string \<Rightarrow> build_error + rx" where
  \<comment> \<open>\<open>new RegExp(source)\<close>\<close>
  "newRegExp src =
     (case parseChars (PState [Frame [] [] 0] 0 LStart PNormal) src of
        Inl e \<Rightarrow> Inl e
      | Inr ps \<Rightarrow> parseFinish ps)"

subsection \<open>Matching\<close>

text \<open>
  A matcher state is the rest of the input and the captures so far. \<open>ms\<close> lists the
  states a pattern can end in, in the order backtracking tries them; the first one is
  the match. A repetition clears the captures of the groups inside it before each
  round, refuses a round that consumes nothing, and is greedy. Its fuel is the length
  of the rest, which bounds the rounds that consume a character.
\<close>

type_synonym captures = "nat \<rightharpoonup> string"
type_synonym mstate = "string \<times> captures"

definition itemMatches :: "citem \<Rightarrow> char \<Rightarrow> bool" where
  "itemMatches i c =
     (case i of
        CRange a b \<Rightarrow> (of_char a :: nat) \<le> of_char c \<and> (of_char c :: nat) \<le> of_char b
      | CDigit \<Rightarrow> isDigitChar c | CNotDigit \<Rightarrow> \<not> isDigitChar c
      | CWord \<Rightarrow> isWordChar c | CNotWord \<Rightarrow> \<not> isWordChar c
      | CSpace \<Rightarrow> isSpaceChar c | CNotSpace \<Rightarrow> \<not> isSpaceChar c)"

definition classMatches :: "bool \<Rightarrow> citem list \<Rightarrow> char \<Rightarrow> bool" where
  "classMatches neg items c = (list_ex (\<lambda>i. itemMatches i c) items \<noteq> neg)"

primrec groupsOf :: "rx \<Rightarrow> nat list" where
  "groupsOf REmpty = []"
| "groupsOf (RChar c) = []"
| "groupsOf RAny = []"
| "groupsOf (RClass neg items) = []"
| "groupsOf RBol = []"
| "groupsOf REol = []"
| "groupsOf (RSeq a b) = groupsOf a @ groupsOf b"
| "groupsOf (RAlt a b) = groupsOf a @ groupsOf b"
| "groupsOf (RStar a) = groupsOf a"
| "groupsOf (RPlus a) = groupsOf a"
| "groupsOf (ROpt a) = groupsOf a"
| "groupsOf (RGroup k a) = k # groupsOf a"

definition clearGroups :: "nat list \<Rightarrow> captures \<Rightarrow> captures" where
  "clearGroups ks cp = (\<lambda>k. if k \<in> set ks then None else cp k)"

primrec starIter :: "(mstate \<Rightarrow> mstate list) \<Rightarrow> nat \<Rightarrow> mstate \<Rightarrow> mstate list" where
  "starIter f 0 st = [st]"
| "starIter f (Suc n) st =
     concat (map (\<lambda>st'. if length (fst st') < length (fst st) then starIter f n st' else []) (f st))
     @ [st]"

primrec ms :: "string \<Rightarrow> rx \<Rightarrow> string \<Rightarrow> captures \<Rightarrow> mstate list" where
  "ms inp REmpty s cp = [(s, cp)]"
| "ms inp (RChar c) s cp = (case s of [] \<Rightarrow> [] | x # xs \<Rightarrow> if x = c then [(xs, cp)] else [])"
| "ms inp RAny s cp = (case s of [] \<Rightarrow> [] | x # xs \<Rightarrow> if isLineTerminator x then [] else [(xs, cp)])"
| "ms inp (RClass neg items) s cp =
     (case s of [] \<Rightarrow> [] | x # xs \<Rightarrow> if classMatches neg items x then [(xs, cp)] else [])"
| "ms inp RBol s cp = (if length s = length inp then [(s, cp)] else [])"
| "ms inp REol s cp = (if s = [] then [(s, cp)] else [])"
| "ms inp (RSeq a b) s cp = concat (map (\<lambda>st. ms inp b (fst st) (snd st)) (ms inp a s cp))"
| "ms inp (RAlt a b) s cp = ms inp a s cp @ ms inp b s cp"
| "ms inp (RStar a) s cp =
     starIter (\<lambda>st. ms inp a (fst st) (clearGroups (groupsOf a) (snd st))) (length s) (s, cp)"
| "ms inp (RPlus a) s cp =
     concat (map (starIter (\<lambda>st. ms inp a (fst st) (clearGroups (groupsOf a) (snd st))) (length s))
                 (ms inp a s (clearGroups (groupsOf a) cp)))"
| "ms inp (ROpt a) s cp =
     filter (\<lambda>st. length (fst st) < length s) (ms inp a s (clearGroups (groupsOf a) cp)) @ [(s, cp)]"
| "ms inp (RGroup k a) s cp =
     map (\<lambda>st. (fst st, (snd st)(k \<mapsto> take (length s - length (fst st)) s))) (ms inp a s cp)"

fun execFrom :: "string \<Rightarrow> rx \<Rightarrow> string \<Rightarrow> captures option" where
  \<comment> \<open>the start positions from left to right; the first position with a match wins\<close>
  "execFrom inp r [] = (case ms inp r [] Map.empty of [] \<Rightarrow> None | st # _ \<Rightarrow> Some (snd st))"
| "execFrom inp r (x # xs) =
     (case ms inp r (x # xs) Map.empty of [] \<Rightarrow> execFrom inp r xs | st # _ \<Rightarrow> Some (snd st))"

definition stringMatch :: "string \<Rightarrow> rx \<Rightarrow> captures option" where
  \<comment> \<open>\<open>s.match(regex)\<close> for a pattern without flags: \<open>None\<close> is \<open>null\<close>, and capture \<open>k\<close> of
      the result is element \<open>1 + k\<close> of the array\<close>
  "stringMatch s r = execFrom s r s"

section \<open>The request dispatcher\<close>

text \<open>
  The source generates JavaScript text per route and compiles it once. The embedding
  gives the meaning of that text: a compiled route is the method it compares with, its
  matcher and its parsed parameters, and the dispatcher tries the compiled routes in
  order. Names that a lookup in a JavaScript object would find on \<open>Object.prototype\<close>,
  and characters that would end a string literal or a comment of the generated text,
  put a route outside the embedding (\<open>OutsideModel\<close>).

  The variable \<open>_match\<close> lives in the context of the compiled function: every dispatch
  assigns to it where a route's condition reaches the pattern match, and a generated
  parameter function reads it when it is called (one that parses the body, once the
  body is parsed). The embedding threads it through the dispatcher as a state (\<open>None\<close>
  is \<open>null\<close>) and gives it to a parameter function as an argument: the value \<open>_match\<close>
  has when the function reads it. Validators, converters and the injector are taken to return.
\<close>

datatype failure = ValidationError "ValidationErrorItem list" | TypeError | BodyParseError | NotModelled

record HttpRequest =
  getMethod :: string
  getUrl :: string
  requestBody :: "jsval option"
  \<comment> \<open>the fields formidable parses from the body; \<open>None\<close> when it reports an error\<close>

datatype matcher = ExactMatch string | PrefixRegexMatch string rx

record CompiledRoute =
  compiledConfig :: RouteConfig
  compiledMethod :: string
  compiledMatcher :: matcher
  compiledParsed :: ParsedRoute

type_synonym injector = "ClassRef option \<Rightarrow> jsval"

record ResolvedController =
  routeConfig :: RouteConfig
  routeIndex :: nat
  \<comment> \<open>the position of the route in the router's list: the identity of the \<open>RouteConfig\<close>
      object the source returns\<close>
  resolvedParameters :: "(captures option \<Rightarrow> injector \<Rightarrow> failure + jsval list) option"
  \<comment> \<open>the generated \<open>function(_injector)\<close>, by the value \<open>_match\<close> has when it reads it\<close>

definition objectPrototypeNames :: "string list" where
  "objectPrototypeNames =
     [''constructor'', ''__defineGetter__'', ''__defineSetter__'', ''hasOwnProperty'',
      ''__lookupGetter__'', ''__lookupSetter__'', ''isPrototypeOf'', ''propertyIsEnumerable'',
      ''toString'', ''valueOf'', ''__proto__'', ''toLocaleString'']"

definition ownName :: "string \<Rightarrow> bool" where
  "ownName n = (n \<notin> set objectPrototypeNames)"

fun splitOn :: "char \<Rightarrow> string \<Rightarrow> string list" where
  \<comment> \<open>\<open>s.split(c)\<close>\<close>
  "splitOn c [] = [[]]"
| "splitOn c (x # xs) =
     (if x = c then [] # splitOn c xs
      else (case splitOn c xs of h # t \<Rightarrow> (x # h) # t | [] \<Rightarrow> [[x]]))"

fun readPath :: "jsval \<Rightarrow> string list \<Rightarrow> failure + jsval" where
  \<comment> \<open>\<open>v['k1']['k2']...\<close>: reading a property of \<open>undefined\<close> or \<open>null\<close> throws a TypeError;
      the properties of strings and numbers are not modelled\<close>
  "readPath v [] = Inr v"
| "readPath v (k # ks) =
     (case v of
        JUndefined \<Rightarrow> Inl TypeError
      | JNull \<Rightarrow> Inl TypeError
      | JObj ob \<Rightarrow> readPath (getProperty ob k) ks
      | _ \<Rightarrow> Inl NotModelled)"

definition queryPathOf :: "ParsedRouteParameter \<Rightarrow> string" where
  \<comment> \<open>\<open>parameter.typePath === undefined ? parameter.property.name : parameter.typePath\<close>\<close>
  "queryPathOf p = (case parameterTypePath p of None \<Rightarrow> propertyName (property p) | Some t \<Rightarrow> t)"

definition queryAccessor :: "ParsedRouteParameter \<Rightarrow> jsval \<Rightarrow> failure + jsval" where
  "queryAccessor p q =
     (if queryPathOf p \<noteq> [] then readPath q (splitOn CHR ''.'' (queryPathOf p)) else Inr q)"

definition captured :: "captures \<Rightarrow> nat \<Rightarrow> jsval" where
  \<comment> \<open>\<open>_match[1 + pos]\<close>\<close>
  "captured m pos = (case m pos of Some s \<Rightarrow> JStr s | None \<Rightarrow> JUndefined)"

definition argumentConverter :: "externals \<Rightarrow> PropertySchema \<Rightarrow> jsval \<Rightarrow> jsval" where
  "argumentConverter X p = (if propertyType p = ''any'' then (\<lambda>v. v) else getPropertyXtoClassFunction X p)"

definition argumentValidator :: "externals \<Rightarrow> PropertySchema \<Rightarrow> jsval \<Rightarrow> jsval \<Rightarrow> ValidationErrorItem list" where
  "argumentValidator X p = (if propertyType p = ''any'' then (\<lambda>v pth. []) else jitValidateProperty X p)"

datatype binding = PathBound nat | ErrorSink | BodyBound | QueryBound | Injected

definition classify :: "ParsedRoute \<Rightarrow> nat \<Rightarrow> ParsedRouteParameter \<Rightarrow> binding" where
  \<comment> \<open>the branches of the loop over the parameters, in the source's order\<close>
  "classify pr i p =
     (case regexPosition p of
        Some pos \<Rightarrow> PathBound pos
      | None \<Rightarrow>
          (if customValidationErrorHandling pr = Some i then ErrorSink
           else if body p then BodyBound
           else if query p then QueryBound
           else Injected))"

definition bindings :: "ParsedRoute \<Rightarrow> (binding \<times> ParsedRouteParameter) list" where
  "bindings pr = map (\<lambda>ip. (classify pr (fst ip) (snd ip), snd ip)) (enumerate 0 (parsedParameters pr))"

definition validateParameter ::
  "externals \<Rightarrow> captures option \<Rightarrow> jsval \<Rightarrow> jsval \<Rightarrow> binding \<times> ParsedRouteParameter
     \<Rightarrow> ValidationErrorItem list \<times> ValidationErrorItem list
     \<Rightarrow> failure + ValidationErrorItem list \<times> ValidationErrorItem list" where
  \<comment> \<open>one entry of \<open>parameterValidator\<close>, run on \<open>(validationErrors, bodyErrors)\<close>; reading an
      element of \<open>_match\<close> throws a TypeError when \<open>_match\<close> is \<open>null\<close>\<close>
  "validateParameter X mv q bodyFields bp errs =
     (case fst bp of
        PathBound pos \<Rightarrow>
          (case mv of
             None \<Rightarrow> Inl TypeError
           | Some m \<Rightarrow>
               Inr (fst errs @ argumentValidator X (property (snd bp)) (captured m pos) (JStr (getName (snd bp))),
                    snd errs))
      | ErrorSink \<Rightarrow> Inr errs
      | BodyBound \<Rightarrow>
          Inr (fst errs,
               snd errs @ jitValidateProperty X (property (snd bp))
                 (getPropertyXtoClassFunction X (property (snd bp)) bodyFields)
                 (JStr (case parameterTypePath (snd bp) of Some t \<Rightarrow> t | None \<Rightarrow> [])))
      | QueryBound \<Rightarrow>
          (case queryAccessor (snd bp) q of
             Inl e \<Rightarrow> Inl e
           | Inr v \<Rightarrow>
               Inr (fst errs @ argumentValidator X (property (snd bp)) v
                      (case parameterTypePath (snd bp) of None \<Rightarrow> JUndefined | Some t \<Rightarrow> JStr t),
                    snd errs))
      | Injected \<Rightarrow> Inr errs)"

fun validateAll ::
  "externals \<Rightarrow> captures option \<Rightarrow> jsval \<Rightarrow> jsval \<Rightarrow> (binding \<times> ParsedRouteParameter) list
     \<Rightarrow> ValidationErrorItem list \<times> ValidationErrorItem list
     \<Rightarrow> failure + ValidationErrorItem list \<times> ValidationErrorItem list" where
  "validateAll X m q bodyFields [] errs = Inr errs"
| "validateAll X m q bodyFields (bp # bps) errs =
     (case validateParameter X m q bodyFields bp errs of
        Inl e \<Rightarrow> Inl e
      | Inr errs' \<Rightarrow> validateAll X m q bodyFields bps errs')"

definition setParameter ::
  "externals \<Rightarrow> captures option \<Rightarrow> jsval \<Rightarrow> jsval \<Rightarrow> injector \<Rightarrow> ValidationErrorItem list
     \<Rightarrow> binding \<times> ParsedRouteParameter \<Rightarrow> failure + jsval" where
  \<comment> \<open>one entry of \<open>setParameters\<close>\<close>
  "setParameter X mv q bodyFields ij bodyErrors bp =
     (case fst bp of
        PathBound pos \<Rightarrow>
          (case mv of
             None \<Rightarrow> Inl TypeError
           | Some m \<Rightarrow> Inr (argumentConverter X (property (snd bp)) (captured m pos)))
      | ErrorSink \<Rightarrow> Inr (JBodyValidation bodyErrors)
      | BodyBound \<Rightarrow> Inr (getPropertyXtoClassFunction X (property (snd bp)) bodyFields)
      | QueryBound \<Rightarrow>
          (case queryAccessor (snd bp) q of
             Inl e \<Rightarrow> Inl e
           | Inr v \<Rightarrow> Inr (argumentConverter X (property (snd bp)) v))
      | Injected \<Rightarrow> Inr (ij (classType (property (snd bp)))))"

fun setAll ::
  "externals \<Rightarrow> captures option \<Rightarrow> jsval \<Rightarrow> jsval \<Rightarrow> injector \<Rightarrow> ValidationErrorItem list
     \<Rightarrow> (binding \<times> ParsedRouteParameter) list \<Rightarrow> failure + jsval list" where
  "setAll X m q bodyFields ij bodyErrors [] = Inr []"
| "setAll X m q bodyFields ij bodyErrors (bp # bps) =
     (case setParameter X m q bodyFields ij bodyErrors bp of
        Inl e \<Rightarrow> Inl e
      | Inr v \<Rightarrow>
          (case setAll X m q bodyFields ij bodyErrors bps of
             Inl e \<Rightarrow> Inl e
           | Inr vs \<Rightarrow> Inr (v # vs)))"

definition hasSink :: "ParsedRoute \<Rightarrow> bool" where
  \<comment> \<open>whether the loop cleared \<open>bodyValidationErrorHandling\<close>\<close>
  "hasSink pr = list_ex (\<lambda>bp. fst bp = ErrorSink) (bindings pr)"

definition enableParseBody :: "ParsedRoute \<Rightarrow> bool" where
  "enableParseBody pr = list_ex (\<lambda>bp. fst bp = BodyBound) (bindings pr)"

definition parametersFunction ::
  "externals \<Rightarrow> ParsedRoute \<Rightarrow> jsval \<Rightarrow> jsval option \<Rightarrow> captures option \<Rightarrow> injector
     \<Rightarrow> failure + jsval list" where
  \<comment> \<open>the generated \<open>function(_injector)\<close>: \<open>q\<close> is the \<open>_query\<close> of the dispatch that returned
      it, \<open>b\<close> the body of its request, \<open>mv\<close> the value of \<open>_match\<close> when it is read\<close>
  "parametersFunction X pr q b mv ij =
     (if enableParseBody pr \<and> b = None then Inl BodyParseError
      else
        (let bodyFields = (case b of Some f \<Rightarrow> f | None \<Rightarrow> JUndefined)
         in case validateAll X mv q bodyFields (bindings pr) ([], []) of
              Inl e \<Rightarrow> Inl e
            | Inr errs \<Rightarrow>
                (if \<not> hasSink pr \<and> snd errs \<noteq> [] then Inl (ValidationError (snd errs))
                 else if fst errs \<noteq> [] then Inl (ValidationError (fst errs))
                 else setAll X mv q bodyFields ij (snd errs) (bindings pr))))"

definition literalPrefix :: "string \<Rightarrow> string" where
  \<comment> \<open>\<open>path.substr(0, path.indexOf(':'))\<close>; a negative length gives the empty string\<close>
  "literalPrefix p = (case indexOf p CHR '':'' of None \<Rightarrow> [] | Some i \<Rightarrow> take i p)"

definition getRouteCode :: "externals \<Rightarrow> RouteConfig \<Rightarrow> build_error + CompiledRoute" where
  "getRouteCode X r =
     (let parsedRoute = parseRouteControllerAction X r;
          p = getFullPath X r
      in case newRegExp (''^'' @ regex parsedRoute @ ''$'') of
           Inl e \<Rightarrow> Inl e
         | Inr re \<Rightarrow>
             Inr \<lparr>compiledConfig = r,
                  compiledMethod = toLowerCase (httpMethod r),
                  compiledMatcher =
                    (if parsedParameters parsedRoute \<noteq> [] then PrefixRegexMatch (literalPrefix p) re
                     else ExactMatch p),
                  compiledParsed = parsedRoute\<rparr>)"

definition runMatcher :: "matcher \<Rightarrow> string \<Rightarrow> captures option" where
  \<comment> \<open>the condition on \<open>_path\<close>: \<open>None\<close> when it is falsy, else the captures of the match
      (none for the comparison)\<close>
  "runMatcher mt p =
     (case mt of
        ExactMatch full \<Rightarrow> (if p = full then Some Map.empty else None)
      | PrefixRegexMatch prefix re \<Rightarrow> (if startsWith p prefix then stringMatch p re else None))"

definition assignMatch :: "CompiledRoute \<Rightarrow> string \<Rightarrow> string \<Rightarrow> captures option \<Rightarrow> captures option" where
  \<comment> \<open>\<open>_match\<close> after the condition of a route: \<open>&&\<close> reaches the assignment
      \<open>_match = _path.match(regex)\<close> when the method is equal and the prefix test holds\<close>
  "assignMatch c m p mv =
     (case compiledMatcher c of
        ExactMatch full \<Rightarrow> mv
      | PrefixRegexMatch prefix re \<Rightarrow>
          (if m = compiledMethod c \<and> startsWith p prefix then stringMatch p re else mv))"

fun runRoutes ::
  "externals \<Rightarrow> HttpRequest \<Rightarrow> string \<Rightarrow> string \<Rightarrow> jsval \<Rightarrow> nat \<Rightarrow> CompiledRoute list
     \<Rightarrow> captures option \<Rightarrow> ResolvedController option \<times> captures option" where
  \<comment> \<open>the generated \<open>if\<close> statements, from \<open>_match = mv\<close>: what is returned, and \<open>_match\<close> then\<close>
  "runRoutes X request m p q i [] mv = (None, mv)"
| "runRoutes X request m p q i (c # cs) mv =
     (case (if m = compiledMethod c then runMatcher (compiledMatcher c) p else None) of
        Some caps \<Rightarrow>
          (Some \<lparr>routeConfig = compiledConfig c,
                 routeIndex = i,
                 resolvedParameters =
                   (if parsedParameters (compiledParsed c) \<noteq> []
                    then Some (parametersFunction X (compiledParsed c) q (requestBody request))
                    else None)\<rparr>,
           assignMatch c m p mv)
      | None \<Rightarrow> runRoutes X request m p q (Suc i) cs (assignMatch c m p mv))"

definition requestPath :: "string \<Rightarrow> string" where
  \<comment> \<open>\<open>_path\<close>\<close>
  "requestPath u = (case indexOf u CHR ''?'' of None \<Rightarrow> u | Some i \<Rightarrow> take i u)"

definition requestQuery :: "externals \<Rightarrow> string \<Rightarrow> jsval" where
  \<comment> \<open>\<open>_query\<close>\<close>
  "requestQuery X u =
     (case indexOf u CHR ''?'' of None \<Rightarrow> JObj [] | Some i \<Rightarrow> parseQueryString X (drop (Suc i) u))"

definition dispatch ::
  "externals \<Rightarrow> CompiledRoute list \<Rightarrow> HttpRequest \<Rightarrow> captures option
     \<Rightarrow> ResolvedController option \<times> captures option" where
  \<comment> \<open>the function \<open>build\<close> compiles, called when \<open>_match\<close> is \<open>mv\<close>\<close>
  "dispatch X cs request mv =
     runRoutes X request (toLowerCase (getMethod request)) (requestPath (getUrl request))
       (requestQuery X (getUrl request)) 0 cs mv"

definition textSafe :: "string \<Rightarrow> bool" where
  \<comment> \<open>no quote, backslash or line break: the string can stand in a quoted literal\<close>
  "textSafe s = list_all (\<lambda>c. c \<noteq> CHR 0x27 \<and> c \<noteq> CHR 0x5C \<and> \<not> isLineTerminator c) s"

definition routeModelled :: "externals \<Rightarrow> RouteConfig \<Rightarrow> bool" where
  "routeModelled X r =
     (textSafe (toLowerCase (httpMethod r))
      \<and> list_all (\<lambda>c. \<not> isLineTerminator c) (getFullPath X r)
      \<and> list_all ownName (tokenNames (getFullPath X r))
      \<and> list_all (\<lambda>p. ownName (propertyName p)) (methodProperties r)
      \<and> list_all (\<lambda>p. query p \<longrightarrow> textSafe (queryPathOf p) \<and> list_all ownName (splitOn CHR ''.'' (queryPathOf p)))
           (parsedParameters (parseRouteControllerAction X r)))"

fun compileRoutes :: "externals \<Rightarrow> RouteConfig list \<Rightarrow> build_error + CompiledRoute list" where
  "compileRoutes X [] = Inr []"
| "compileRoutes X (r # rs) =
     (case getRouteCode X r of
        Inl e \<Rightarrow> Inl e
      | Inr c \<Rightarrow> (case compileRoutes X rs of Inl e \<Rightarrow> Inl e | Inr cs \<Rightarrow> Inr (c # cs)))"

definition build :: "externals \<Rightarrow> RouteConfig list \<Rightarrow> build_error + CompiledRoute list" where
  "build X rs = (if list_all (routeModelled X) rs then compileRoutes X rs else Inl OutsideModel)"

section \<open>The URL resolver\<close>

datatype queryRead = ReadParameter string | ReadField string string
  \<comment> \<open>\<open>parameters.p\<close> and \<open>parameters.p?.f\<close>\<close>

record UrlCase =
  caseLabel :: string
  caseUrl :: string
  caseModify :: "(queryRead \<times> string) list"

definition readQueryValue :: "(string \<times> jsval) list \<Rightarrow> queryRead \<Rightarrow> jsval option" where
  "readQueryValue ps rd =
     (case rd of
        ReadParameter p \<Rightarrow> Some (getProperty ps p)
      | ReadField p f \<Rightarrow> optionalMember (getProperty ps p) f)"

definition modifyEntries :: "ParsedRouteParameter \<Rightarrow> (queryRead \<times> string) list" where
  \<comment> \<open>what a query parameter pushes to \<open>modify\<close>: the read and the key of each statement\<close>
  "modifyEntries p =
     (if propertyType (property p) = ''class''
      then map (\<lambda>f. (ReadField (getName p) f,
                      dotToUrlPath (if queryPathOf p \<noteq> [] then queryPathOf p @ ''.'' @ f else f)))
               (classProperties (property p))
      else [(ReadParameter (getName p), dotToUrlPath (queryPathOf p))])"

definition getRouteUrlResolveCode :: "externals \<Rightarrow> RouteConfig \<Rightarrow> UrlCase" where
  "getRouteUrlResolveCode X r =
     \<lparr>caseLabel = name r,
      caseUrl = getFullPath X r,
      caseModify = concat (map modifyEntries (filter query (parsedParameters (parseRouteControllerAction X r))))\<rparr>"

definition modifyStatement :: "(string \<times> jsval) list \<Rightarrow> queryRead \<times> string \<Rightarrow> string list option" where
  \<comment> \<open>one statement of \<open>modify\<close>: what \<open>read !== undefined && query.push(key + '=' +
      encodeURIComponent(read))\<close> appends to \<open>query\<close>\<close>
  "modifyStatement ps e =
     (case readQueryValue ps (fst e) of
        None \<Rightarrow> None
      | Some v \<Rightarrow>
          (if v \<noteq> JUndefined
           then map_option (\<lambda>s. [snd e @ ''='' @ s]) (encodeURIComponent v)
           else Some []))"

fun queryStrings :: "(queryRead \<times> string) list \<Rightarrow> (string \<times> jsval) list \<Rightarrow> string list option" where
  \<comment> \<open>the array \<open>query\<close> after the statements of \<open>modify\<close>\<close>
  "queryStrings [] ps = Some []"
| "queryStrings (e # md) ps =
     (case modifyStatement ps e of
        None \<Rightarrow> None
      | Some a \<Rightarrow> map_option (\<lambda>b. a @ b) (queryStrings md ps))"

datatype url_failure = BuildFailed build_error | NoRouteForName string | ValueOutsideModel

definition runUrlCase :: "UrlCase \<Rightarrow> (string \<times> jsval) list \<Rightarrow> url_failure + string" where
  \<comment> \<open>the block of a clause; \<open>caseUrl\<close> stands for the template literal with
      \<open>${parameters.name}\<close> at each token\<close>
  "runUrlCase c ps =
     (case templateLiteral (\<lambda>n. toString (getProperty ps n)) (pieces (caseUrl c)) of
        None \<Rightarrow> Inl ValueOutsideModel
      | Some url \<Rightarrow>
          (case queryStrings (caseModify c) ps of
             None \<Rightarrow> Inl ValueOutsideModel
           | Some qs \<Rightarrow> Inr (url @ (if qs \<noteq> [] then ''?'' @ joinWith ''&'' qs else []))))"

fun runSwitch :: "UrlCase list \<Rightarrow> string \<Rightarrow> (string \<times> jsval) list \<Rightarrow> url_failure + string" where
  \<comment> \<open>\<open>switch (name)\<close>: the first clause with an equal label runs and returns\<close>
  "runSwitch [] n ps = Inl (NoRouteForName n)"
| "runSwitch (c # cs) n ps = (if caseLabel c = n then runUrlCase c ps else runSwitch cs n ps)"

definition isIdentifierName :: "string \<Rightarrow> bool" where
  "isIdentifierName s =
     (s \<noteq> [] \<and> \<not> isDigitChar (hd s) \<and> list_all (\<lambda>c. isWordChar c \<or> c = CHR ''$'') s)"

fun templateSafe :: "string \<Rightarrow> bool" where
  \<comment> \<open>no backtick, backslash, carriage return or \<open>${\<close>: the string stands for itself in a
      template literal\<close>
  "templateSafe [] = True"
| "templateSafe (c # s) =
     (c \<noteq> CHR 0x60 \<and> c \<noteq> CHR 0x5C \<and> c \<noteq> CHR 0x0D
      \<and> \<not> (c = CHR ''$'' \<and> take 1 s = ''{'') \<and> templateSafe s)"

definition urlCodeModelled :: "externals \<Rightarrow> RouteConfig \<Rightarrow> bool" where
  "urlCodeModelled X r =
     (templateSafe (getFullPath X r)
      \<and> list_all ownName (tokenNames (getFullPath X r))
      \<and> list_all (\<lambda>p. ownName (propertyName p)) (methodProperties r)
      \<and> list_all (\<lambda>p. query p \<longrightarrow>
                    isIdentifierName (getName p)
                    \<and> (propertyType (property p) = ''class'' \<longrightarrow>
                         list_all (\<lambda>f. isIdentifierName f \<and> ownName f) (classProperties (property p))))
           (parsedParameters (parseRouteControllerAction X r)))"

definition digitToken :: "externals \<Rightarrow> RouteConfig \<Rightarrow> bool" where
  \<comment> \<open>a token whose name starts with a digit: \<open>parameters.1\<close> is no expression\<close>
  "digitToken X r = list_ex (\<lambda>n. isDigitChar (hd n)) (tokenNames (getFullPath X r))"

definition buildUrlResolver :: "externals \<Rightarrow> RouteConfig list \<Rightarrow> build_error + UrlCase list" where
  "buildUrlResolver X rs =
     (if \<not> list_all (urlCodeModelled X) rs then Inl OutsideModel
      else if list_ex (digitToken X) rs then Inl SyntaxError
      else Inr (map (getRouteUrlResolveCode X) rs))"

section \<open>The router\<close>

text \<open>
  \<open>fn\<close> and \<open>resolveFn\<close> hold what \<open>build\<close> and \<open>buildUrlResolver\<close> compiled, \<open>None\<close> while
  unset. \<open>contextMatch\<close> is the variable \<open>_match\<close> in the context of the function in \<open>fn\<close>;
  \<open>build\<close> sets it to \<open>null\<close> in the new context.
\<close>

record Router =
  routes :: "RouteConfig list"
  fn :: "CompiledRoute list option"
  resolveFn :: "UrlCase list option"
  contextMatch :: "captures option"

definition addRoute :: "RouteConfig \<Rightarrow> Router \<Rightarrow> Router" where
  "addRoute r rt = rt\<lparr>routes := routes rt @ [r], fn := None\<rparr>"

definition resolveUrl ::
  "externals \<Rightarrow> string \<Rightarrow> (string \<times> jsval) list \<Rightarrow> Router \<Rightarrow> (url_failure + string) \<times> Router" where
  "resolveUrl X routeName ps rt =
     (case resolveFn rt of
        Some f \<Rightarrow> (runSwitch f routeName ps, rt)
      | None \<Rightarrow>
          (case buildUrlResolver X (routes rt) of
             Inl e \<Rightarrow> (Inl (BuildFailed e), rt)
           | Inr f \<Rightarrow> (runSwitch f routeName ps, rt\<lparr>resolveFn := Some f\<rparr>)))"

definition resolveRequest ::
  "externals \<Rightarrow> HttpRequest \<Rightarrow> Router \<Rightarrow> (build_error + ResolvedController option) \<times> Router" where
  "resolveRequest X request rt =
     (case fn rt of
        Some f \<Rightarrow>
          (Inr (fst (dispatch X f request (contextMatch rt))),
           rt\<lparr>contextMatch := snd (dispatch X f request (contextMatch rt))\<rparr>)
      | None \<Rightarrow>
          (case build X (routes rt) of
             Inl e \<Rightarrow> (Inl e, rt)
           | Inr f \<Rightarrow>
               (Inr (fst (dispatch X f request None)),
                rt\<lparr>fn := Some f, contextMatch := snd (dispatch X f request None)\<rparr>)))"

definition resolve ::
  "externals \<Rightarrow> string \<Rightarrow> string \<Rightarrow> Router \<Rightarrow> (build_error + ResolvedController option) \<times> Router" where
  "resolve X m u rt = resolveRequest X \<lparr>getMethod = m, getUrl = u, requestBody = None\<rparr> rt"

section \<open>Notions for the properties\<close>

definition routeMatches :: "externals \<Rightarrow> RouteConfig \<Rightarrow> HttpRequest \<Rightarrow> bool" where
  \<comment> \<open>the condition of the \<open>if\<close> statement generated for a route\<close>
  "routeMatches X r request =
     (case getRouteCode X r of
        Inl e \<Rightarrow> False
      | Inr c \<Rightarrow> toLowerCase (getMethod request) = compiledMethod c
                 \<and> runMatcher (compiledMatcher c) (requestPath (getUrl request)) \<noteq> None)"

definition newRouter :: "RouteConfig list \<Rightarrow> Router" where
  \<comment> \<open>a router whose routes are registered and that has compiled nothing yet\<close>
  "newRouter rs = \<lparr>routes = rs, fn = None, resolveFn = None, contextMatch = None\<rparr>"

text \<open>
  The dispatcher's choice of a route, apart from what it returns for it: the first
  compiled route whose condition holds, with its position and the captures.
\<close>

definition accepts :: "CompiledRoute \<Rightarrow> string \<Rightarrow> string \<Rightarrow> bool" where
  "accepts c m p = (m = compiledMethod c \<and> runMatcher (compiledMatcher c) p \<noteq> None)"

fun selectRoute :: "string \<Rightarrow> string \<Rightarrow> nat \<Rightarrow> CompiledRoute list \<Rightarrow> (nat \<times> CompiledRoute \<times> captures) option" where
  "selectRoute m p i [] = None"
| "selectRoute m p i (c # cs) =
     (case (if m = compiledMethod c then runMatcher (compiledMatcher c) p else None) of
        Some caps \<Rightarrow> Some (i, c, caps)
      | None \<Rightarrow> selectRoute m p (Suc i) cs)"

fun matchAfter :: "string \<Rightarrow> string \<Rightarrow> CompiledRoute list \<Rightarrow> captures option \<Rightarrow> captures option" where
  \<comment> \<open>\<open>_match\<close> once the dispatcher has returned\<close>
  "matchAfter m p [] mv = mv"
| "matchAfter m p (c # cs) mv =
     (if accepts c m p then assignMatch c m p mv else matchAfter m p cs (assignMatch c m p mv))"

definition patternSource :: "externals \<Rightarrow> RouteConfig \<Rightarrow> string" where
  \<comment> \<open>the argument of \<open>new RegExp\<close> in \<open>getRouteCode\<close>\<close>
  "patternSource X r = ''^'' @ regex (parseRouteControllerAction X r) @ ''$''"

definition routeCaptures :: "externals \<Rightarrow> RouteConfig \<Rightarrow> string \<Rightarrow> captures option" where
  \<comment> \<open>what the matcher of a route finds in a path\<close>
  "routeCaptures X r p =
     (case getRouteCode X r of Inl e \<Rightarrow> None | Inr c \<Rightarrow> runMatcher (compiledMatcher c) p)"

definition resolution :: "externals \<Rightarrow> HttpRequest \<Rightarrow> nat \<times> CompiledRoute \<times> captures \<Rightarrow> ResolvedController" where
  "resolution X request sel =
     \<lparr>routeConfig = compiledConfig (fst (snd sel)),
      routeIndex = fst sel,
      resolvedParameters =
        (if parsedParameters (compiledParsed (fst (snd sel))) \<noteq> []
         then Some (parametersFunction X (compiledParsed (fst (snd sel)))
                      (requestQuery X (getUrl request)) (requestBody request))
         else None)\<rparr>"

text \<open>The calls a client makes on a router, and the state each leaves.\<close>

datatype routerCall = CallAddRoute RouteConfig | CallResolveUrl string "(string \<times> jsval) list" | CallResolveRequest HttpRequest

fun step :: "externals \<Rightarrow> Router \<Rightarrow> routerCall \<Rightarrow> Router" where
  "step X rt (CallAddRoute r) = addRoute r rt"
| "step X rt (CallResolveUrl n ps) = snd (resolveUrl X n ps rt)"
| "step X rt (CallResolveRequest request) = snd (resolveRequest X request rt)"

definition dispatcherCurrent :: "externals \<Rightarrow> Router \<Rightarrow> bool" where
  \<comment> \<open>a dispatcher in \<open>fn\<close> is the one \<open>build\<close> compiles from the present routes\<close>
  "dispatcherCurrent X rt = (case fn rt of None \<Rightarrow> True | Some cs \<Rightarrow> build X (routes rt) = Inr cs)"

definition resolverCurrent :: "externals \<Rightarrow> Router \<Rightarrow> bool" where
  \<comment> \<open>a resolver in \<open>resolveFn\<close> is the one \<open>buildUrlResolver\<close> compiles from the present routes\<close>
  "resolverCurrent X rt =
     (case resolveFn rt of None \<Rightarrow> True | Some f \<Rightarrow> buildUrlResolver X (routes rt) = Inr f)"

definition isAddRoute :: "routerCall \<Rightarrow> bool" where
  "isAddRoute call = (case call of CallAddRoute r \<Rightarrow> True | _ \<Rightarrow> False)"



definition pathBoundOnly :: "(binding \<times> ParsedRouteParameter) list \<Rightarrow> bool" where
  \<comment> \<open>every handler parameter is bound to a capture of the path\<close>
  "pathBoundOnly bps = list_all (\<lambda>bp. case fst bp of PathBound pos \<Rightarrow> True | _ \<Rightarrow> False) bps"

text \<open>
  The pattern of a template whose literal characters are no syntax characters of a
  regular expression and whose tokens have the default expression: \<open>^\<close>, then a character
  or a group \<open>([^/]+)\<close> per piece, then \<open>$\<close>; and the string a list of pieces stands for
  once each token is replaced by its capture.
\<close>

definition segmentRx :: "nat \<Rightarrow> rx" where
  "segmentRx k = RGroup k (RSeq (RPlus (RClass True [CRange CHR ''/'' CHR ''/''])) REmpty)"

fun templateRx :: "nat \<Rightarrow> piece list \<Rightarrow> rx list" where
  "templateRx k [] = []"
| "templateRx k (Lit c # ps) = RChar c # templateRx k ps"
| "templateRx k (Token n # ps) = segmentRx k # templateRx (Suc k) ps"

fun fill :: "piece list \<Rightarrow> nat \<Rightarrow> captures \<Rightarrow> string" where
  "fill [] k cp = []"
| "fill (Lit c # ps) k cp = c # fill ps k cp"
| "fill (Token n # ps) k cp = (case cp k of Some v \<Rightarrow> v | None \<Rightarrow> []) @ fill ps (Suc k) cp"

definition plainPieces :: "piece list \<Rightarrow> bool" where
  "plainPieces ps = list_all (\<lambda>p. case p of Lit c \<Rightarrow> \<not> isSyntaxChar c | Token n \<Rightarrow> True) ps"

definition plainRoute :: "externals \<Rightarrow> RouteConfig \<Rightarrow> bool" where
  "plainRoute X r =
     (plainPieces (pieces (getFullPath X r))
      \<and> list_all (\<lambda>n. tokenPattern r n = ''([^/]+)'') (tokenNames (getFullPath X r)))"

definition renderDefault :: "piece list \<Rightarrow> string" where
  "renderDefault ps = concat (map (\<lambda>p. case p of Lit c \<Rightarrow> [c] | Token n \<Rightarrow> ''([^/]+)'') ps)"

fun tokenCount :: "piece list \<Rightarrow> nat" where
  "tokenCount [] = 0"
| "tokenCount (Lit c # ps) = tokenCount ps"
| "tokenCount (Token n # ps) = Suc (tokenCount ps)"

definition templatePattern :: "piece list \<Rightarrow> rx" where
  "templatePattern ps = mkSeq (RBol # templateRx 0 ps @ [REol])"

text \<open>
  The same for tokens with expressions of their own. The expression of a token is what
  the source puts between the parentheses of its group. The templates considered have
  expressions that are regular expressions by themselves and contain no parenthesis,
  so that the group of the \<open>k\<close>-th token is group \<open>k\<close> of the pattern.
\<close>

definition groupFree :: "rx list \<Rightarrow> bool" where
  \<comment> \<open>no term has a capturing group\<close>
  "groupFree xs = list_all (\<lambda>x. groupsOf x = []) xs"

definition tokenExpression :: "RouteConfig \<Rightarrow> string \<Rightarrow> string" where
  "tokenExpression r n =
     (case parameterRegularExpressions r n of
        Some e \<Rightarrow> (if e \<noteq> [] then e else ''[^/]+'')
      | None \<Rightarrow> ''[^/]+'')"

definition parenFree :: "string \<Rightarrow> bool" where
  "parenFree e = list_all (\<lambda>c. c \<noteq> CHR ''('' \<and> c \<noteq> CHR '')'') e"

definition simpleExpression :: "string \<Rightarrow> bool" where
  "simpleExpression e = (parenFree e \<and> (case newRegExp e of Inr g \<Rightarrow> True | Inl err \<Rightarrow> False))"

definition simpleRoute :: "externals \<Rightarrow> RouteConfig \<Rightarrow> bool" where
  "simpleRoute X r =
     (plainPieces (pieces (getFullPath X r))
      \<and> list_all (\<lambda>n. simpleExpression (tokenExpression r n)) (tokenNames (getFullPath X r)))"

definition expressionRx :: "RouteConfig \<Rightarrow> string \<Rightarrow> rx" where
  "expressionRx r n = (case newRegExp (tokenExpression r n) of Inr g \<Rightarrow> g | Inl err \<Rightarrow> REmpty)"

fun groupedRx :: "(string \<Rightarrow> rx) \<Rightarrow> nat \<Rightarrow> piece list \<Rightarrow> rx list" where
  "groupedRx g k [] = []"
| "groupedRx g k (Lit c # ps) = RChar c # groupedRx g k ps"
| "groupedRx g k (Token n # ps) = RGroup k (g n) # groupedRx g (Suc k) ps"

definition groupedPattern :: "(string \<Rightarrow> rx) \<Rightarrow> piece list \<Rightarrow> rx" where
  "groupedPattern g ps = mkSeq (RBol # groupedRx g 0 ps @ [REol])"

definition renderWith :: "(string \<Rightarrow> string) \<Rightarrow> piece list \<Rightarrow> string" where
  "renderWith e ps = concat (map (\<lambda>p. case p of Lit c \<Rightarrow> [c] | Token n \<Rightarrow> ''('' @ e n @ '')'') ps)"

text \<open>
  The values a dispatch extracts, and the condition that they print back: the string of
  the converted value of every path-bound parameter is the text its group captured.
\<close>

definition extractedParameters ::
  "ResolvedController \<Rightarrow> captures option \<Rightarrow> injector \<Rightarrow> failure + jsval list" where
  \<comment> \<open>the arguments of the handler: the result of the parameter function, none without one\<close>
  "extractedParameters res mv ij = (case resolvedParameters res of None \<Rightarrow> Inr [] | Some g \<Rightarrow> g mv ij)"

definition printsBack :: "externals \<Rightarrow> RouteConfig \<Rightarrow> string \<Rightarrow> bool" where
  "printsBack X r p =
     (case routeCaptures X r p of
        None \<Rightarrow> True
      | Some caps \<Rightarrow>
          list_all (\<lambda>prm. case regexPosition prm of
                           None \<Rightarrow> True
                         | Some pos \<Rightarrow>
                             toString (argumentConverter X (property prm) (captured caps pos)) = caps pos)
                   (parsedParameters (parseRouteControllerAction X r)))"

text \<open>
  The round trip of a request on a router that has just been created with its routes:
  the position of the route the request is dispatched to and its arguments, the URL
  the route's name resolves to with these arguments, and the position and the arguments
  of the dispatch of that URL (\<open>None\<close> when no route matches it).
\<close>

definition roundTrip ::
  "externals \<Rightarrow> RouteConfig list \<Rightarrow> HttpRequest
     \<Rightarrow> (nat \<times> jsval list \<times> string \<times> (nat \<times> jsval list) option) option" where
  "roundTrip X rs request =
     (case resolveRequest X request (newRouter rs) of
        (Inr (Some res), rt1) \<Rightarrow>
          (case extractedParameters res (contextMatch rt1) (\<lambda>c. JNull) of
             Inr args \<Rightarrow>
               (case resolveUrl X (name (routeConfig res))
                       (zip (map propertyName (methodProperties (routeConfig res))) args) rt1 of
                  (Inr u, rt2) \<Rightarrow>
                    (case resolveRequest X \<lparr>getMethod = getMethod request, getUrl = u, requestBody = None\<rparr> rt2 of
                       (Inr (Some res'), rt3) \<Rightarrow>
                         (case extractedParameters res' (contextMatch rt3) (\<lambda>c. JNull) of
                            Inr args' \<Rightarrow> Some (routeIndex res, args, u, Some (routeIndex res', args'))
                          | Inl e \<Rightarrow> None)
                     | (Inr None, rt3) \<Rightarrow> Some (routeIndex res, args, u, None)
                     | (Inl e, rt3) \<Rightarrow> None)
                | (Inl e, rt2) \<Rightarrow> None)
           | Inl e \<Rightarrow> None)
      | (Inr None, rt1) \<Rightarrow> None
      | (Inl e, rt1) \<Rightarrow> None)"

definition segmentStep :: "string \<Rightarrow> mstate \<Rightarrow> mstate list" where
  "segmentStep inp st = ms inp (RClass True [CRange CHR ''/'' CHR ''/'']) (fst st) (clearGroups [] (snd st))"

text \<open>
  An invariant of reading a pattern source once the beginning of the pattern, \<open>base\<close>
  (the atoms read so far, last first), has been followed by a further atom or an open
  group: the outermost frame either has an alternative already, or still holds the
  beginning below what was read since.
\<close>

definition bottomKeeps :: "rx list \<Rightarrow> pstate \<Rightarrow> bool" where
  "bottomKeeps base ps =
     (case ps of PState fs n l md \<Rightarrow>
        fs \<noteq> [] \<and>
        (case last fs of Frame alts cur k \<Rightarrow>
           alts \<noteq> [] \<or> (\<exists>X. cur = X @ base \<and> (length fs = 1 \<longrightarrow> X \<noteq> []))))"

text \<open>
  The resolved URL in the words of the specification: the path with each token replaced
  by the string of its value; the dotted path and the value of each query parameter,
  or of each field of a class-typed one; the pairs whose value is defined; for each
  such pair the key in bracket form (\<open>a[b][c]\<close> for the dotted path \<open>a.b.c\<close>), \<open>=\<close> and the
  percent-encoded value; the pairs joined by \<open>&\<close> after a \<open>?\<close>. A value whose
  reading or string the embedding does not give leaves the URL ungiven (\<open>None\<close>).
\<close>

definition bracketPath :: "string list \<Rightarrow> string" where
  "bracketPath segs =
     (case segs of [] \<Rightarrow> [] | s # rest \<Rightarrow> s @ concat (map (\<lambda>t. ''['' @ t @ '']'') rest))"

definition queryValues :: "ParsedRouteParameter \<Rightarrow> (string \<times> jsval) list \<Rightarrow> (string \<times> jsval option) list" where
  "queryValues p ps =
     (if propertyType (property p) = ''class''
      then map (\<lambda>f. (if queryPathOf p \<noteq> [] then queryPathOf p @ ''.'' @ f else f,
                      optionalMember (getProperty ps (getName p)) f))
               (classProperties (property p))
      else [(queryPathOf p, Some (getProperty ps (getName p)))])"

fun givenValues :: "(string \<times> jsval option) list \<Rightarrow> (string \<times> jsval) list option" where
  \<comment> \<open>the pairs, when every value is given\<close>
  "givenValues [] = Some []"
| "givenValues ((k, None) # kvs) = None"
| "givenValues ((k, Some v) # kvs) = map_option (\<lambda>r. (k, v) # r) (givenValues kvs)"

definition definedQueryValues ::
  "externals \<Rightarrow> RouteConfig \<Rightarrow> (string \<times> jsval) list \<Rightarrow> (string \<times> jsval) list option" where
  "definedQueryValues X r ps =
     map_option (filter (\<lambda>kv. snd kv \<noteq> JUndefined))
       (givenValues (concat (map (\<lambda>p. queryValues p ps)
                       (filter query (parsedParameters (parseRouteControllerAction X r))))))"

definition queryPair :: "string \<times> jsval \<Rightarrow> string option" where
  "queryPair kv = map_option (\<lambda>s. dotToUrlPath (fst kv) @ ''='' @ s) (encodeURIComponent (snd kv))"

fun queryPairs :: "(string \<times> jsval) list \<Rightarrow> string list option" where
  "queryPairs [] = Some []"
| "queryPairs (kv # kvs) =
     (case queryPair kv of
        None \<Rightarrow> None
      | Some s \<Rightarrow> map_option (\<lambda>r. s # r) (queryPairs kvs))"

text \<open>
  Mappings for which the URL is given: every token and every query parameter of the
  route has a string, an integer up to \<open>2^53\<close>, \<open>null\<close> or \<open>undefined\<close>, and a class-typed
  query parameter has \<open>null\<close>, \<open>undefined\<close> or a plain object with such values in its fields.
\<close>

definition scalar :: "jsval \<Rightarrow> bool" where
  "scalar v =
     (case v of
        JUndefined \<Rightarrow> True | JNull \<Rightarrow> True | JStr s \<Rightarrow> True
      | JNum n \<Rightarrow> abs n \<le> 2 ^ 53
      | _ \<Rightarrow> False)"

definition scalarParameters :: "externals \<Rightarrow> RouteConfig \<Rightarrow> (string \<times> jsval) list \<Rightarrow> bool" where
  "scalarParameters X r ps =
     (list_all (\<lambda>n. scalar (getProperty ps n)) (tokenNames (getFullPath X r))
      \<and> list_all
          (\<lambda>p. if propertyType (property p) = ''class''
               then (case getProperty ps (getName p) of
                       JUndefined \<Rightarrow> True
                     | JNull \<Rightarrow> True
                     | JObj ob \<Rightarrow> list_all (\<lambda>f. scalar (getProperty ob f)) (classProperties (property p))
                     | _ \<Rightarrow> False)
               else scalar (getProperty ps (getName p)))
          (filter query (parsedParameters (parseRouteControllerAction X r))))"

definition resolvedUrl :: "externals \<Rightarrow> RouteConfig \<Rightarrow> (string \<times> jsval) list \<Rightarrow> string option" where
  "resolvedUrl X r ps =
     (case templateLiteral (\<lambda>n. toString (getProperty ps n)) (pieces (getFullPath X r)) of
        None \<Rightarrow> None
      | Some url \<Rightarrow>
          (case definedQueryValues X r ps of
             None \<Rightarrow> None
           | Some kvs \<Rightarrow>
               (case queryPairs kvs of
                  None \<Rightarrow> None
                | Some qs \<Rightarrow> Some (url @ (if qs = [] then [] else ''?'' @ joinWith ''&'' qs)))))"

section \<open>An example configuration\<close>

text \<open>
  The concrete evaluations below run in this environment: a validator that reports
  \<open>invalid_number\<close> for a property of type \<open>number\<close> whose value is not numeric, the
  identity as converter, and a query parser that splits at \<open>&\<close> and \<open>=\<close>. Its routes
  have no base URL, so \<open>join\<close> is never called.
\<close>

definition isNumeric :: "jsval \<Rightarrow> bool" where
  "isNumeric v = (case v of JStr s \<Rightarrow> s \<noteq> [] \<and> list_all isDigitChar s | JNum n \<Rightarrow> True | _ \<Rightarrow> False)"

definition exampleExternals :: externals where
  "exampleExternals =
     \<lparr>join = (\<lambda>a b. a @ ''/'' @ b),
      parseQueryString =
        (\<lambda>s. JObj (map (\<lambda>kv. (takeWhile (\<lambda>c. c \<noteq> CHR ''='') kv,
                                JStr (drop 1 (dropWhile (\<lambda>c. c \<noteq> CHR ''='') kv))))
                        (splitOn CHR ''&'' s))),
      jitValidateProperty =
        (\<lambda>p v pth.
           if propertyType p = ''number'' \<and> \<not> isNumeric v
           then [\<lparr>errPath = (case pth of JStr s \<Rightarrow> s | _ \<Rightarrow> []),
                   errCode = ''invalid_number'', errMessage = ''No number given''\<rparr>]
           else []),
      getPropertyXtoClassFunction = (\<lambda>p v. v)\<rparr>"

definition exampleRoute :: "string \<Rightarrow> string \<Rightarrow> PropertySchema list \<Rightarrow> RouteConfig" where
  \<comment> \<open>a GET route without base URL, parameter expressions or decorator data\<close>
  "exampleRoute n p props =
     \<lparr>name = n, httpMethod = ''GET'', path = p, baseUrl = [],
      parameterRegularExpressions = Map.empty, parameters = Map.empty, methodProperties = props\<rparr>"

definition exampleProperty :: "string \<Rightarrow> string \<Rightarrow> PropertySchema" where
  "exampleProperty n t =
     \<lparr>propertyName = n, propertyType = t, classType = None, classProperties = [], isOptional = False\<rparr>"

definition sinkProperty :: PropertySchema where
  \<comment> \<open>a handler parameter of the class \<open>BodyValidation\<close>\<close>
  "sinkProperty =
     \<lparr>propertyName = ''validation'', propertyType = ''class'', classType = Some BodyValidationClass,
      classProperties = [''errors''], isOptional = False\<rparr>"


definition searchRoute :: RouteConfig where
  \<comment> \<open>\<open>GET /users/:id\<close> with a query parameter \<open>tab\<close> and a class-typed one with the fields \<open>a\<close>, \<open>b\<close>\<close>
  "searchRoute =
     (exampleRoute ''userProfile'' ''/users/:id''
        [exampleProperty ''id'' ''any'', exampleProperty ''tab'' ''string'',
         (exampleProperty ''filter'' ''class'')\<lparr>classType := Some (NamedClass ''Filter''), classProperties := [''a'', ''b'']\<rparr>])
       \<lparr>parameters :=
          [''tab'' \<mapsto> \<lparr>parameterType = Some QueryParameter, typePath = None, optional = False, configName = ''tab''\<rparr>,
           ''filter'' \<mapsto> \<lparr>parameterType = Some QueryParameter, typePath = None, optional = True, configName = ''filter''\<rparr>]\<rparr>"

definition postRoute :: RouteConfig where
  \<comment> \<open>\<open>GET /users/:id/posts/:post\<close> with both tokens bound by parameters of type \<open>any\<close>\<close>
  "postRoute =
     exampleRoute ''post'' ''/users/:id/posts/:post''
       [exampleProperty ''id'' ''any'', exampleProperty ''post'' ''any'']"

definition digitsValue :: "string \<Rightarrow> int" where
  "digitsValue s = foldl (\<lambda>a c. 10 * a + (int (of_char c) - 48)) 0 s"

definition numberExternals :: externals where
  \<comment> \<open>as \<open>exampleExternals\<close>, with a converter that reads a string of digits as a number
      for a property of type \<open>number\<close>\<close>
  "numberExternals =
     exampleExternals
       \<lparr>getPropertyXtoClassFunction :=
          (\<lambda>p v. case v of
                    JStr s \<Rightarrow> (if propertyType p = ''number'' \<and> s \<noteq> [] \<and> list_all isDigitChar s
                               then JNum (digitsValue s) else v)
                  | _ \<Rightarrow> v)\<rparr>"

definition numberRoute :: RouteConfig where
  \<comment> \<open>\<open>GET /users/:id\<close> with the expression \<open>[0-9]+\<close> for \<open>id\<close>, a parameter of type number\<close>
  "numberRoute =
     (exampleRoute ''user'' ''/users/:id'' [exampleProperty ''id'' ''number''])
       \<lparr>parameterRegularExpressions := [''id'' \<mapsto> ''[0-9]+'']\<rparr>"

section \<open>Properties\<close>

subsection \<open>URL resolution by name\<close>

lemma runSwitch_skip:
  "\<forall>c \<in> set cs. caseLabel c \<noteq> n \<Longrightarrow> runSwitch (cs @ ds) n ps = runSwitch ds n ps"
  by (induction cs) auto

lemma runSwitch_nth:
  assumes "i < length cs" and "caseLabel (cs ! i) = n" and "\<forall>j<i. caseLabel (cs ! j) \<noteq> n"
  shows "runSwitch cs n ps = runUrlCase (cs ! i) ps"
proof -
  have split: "cs = take i cs @ (cs ! i) # drop (Suc i) cs"
    using assms(1) by (simp add: id_take_nth_drop)
  have "\<forall>c \<in> set (take i cs). caseLabel c \<noteq> n"
  proof
    fix c assume "c \<in> set (take i cs)"
    then obtain j where "j < i" "c = cs ! j"
      using assms(1) by (auto simp: in_set_conv_nth)
    then show "caseLabel c \<noteq> n" using assms(3) by simp
  qed
  then have "runSwitch (take i cs @ (cs ! i) # drop (Suc i) cs) n ps
             = runSwitch ((cs ! i) # drop (Suc i) cs) n ps"
    by (rule runSwitch_skip)
  with split assms(2) show ?thesis by simp
qed

lemma runSwitch_none:
  "\<forall>c \<in> set cs. caseLabel c \<noteq> n \<Longrightarrow> runSwitch cs n ps = Inl (NoRouteForName n)"
  by (induction cs) auto

lemma buildUrlResolver_Inr:
  "buildUrlResolver X rs = Inr f \<Longrightarrow> f = map (getRouteUrlResolveCode X) rs"
  by (auto simp: buildUrlResolver_def split: if_splits)

lemmas example_simps =
  exampleRoute_def exampleProperty_def exampleExternals_def newRouter_def getFullPath_def
  startsWith_def tokenNames_def parseRouteControllerAction_def parseRoutePathToRegex_def
  parseParameter_def replaceTokens_def tokenPattern_def isWordChar_def

lemmas resolver_simps =
  resolveUrl_def buildUrlResolver_def urlCodeModelled_def digitToken_def
  getRouteUrlResolveCode_def runUrlCase_def modifyStatement_def readQueryValue_def

text \<open>
  A router whose resolver is unset, or was compiled from the routes it has now, answers
  from the clauses of its routes and keeps that resolver.
\<close>

lemma resolveUrl_current:
  assumes "resolveFn rt = None \<or> resolveFn rt = Some f"
      and "buildUrlResolver X (routes rt) = Inr f"
  shows "resolveUrl X n ps rt = (runSwitch f n ps, rt\<lparr>resolveFn := Some f\<rparr>)"
  using assms by (auto simp: resolveUrl_def)

lemma resolveUrl_nth:
  assumes cache: "resolveFn rt = None \<or> resolveFn rt = Some f"
      and built: "buildUrlResolver X (routes rt) = Inr f"
      and i: "i < length (routes rt)" "name (routes rt ! i) = n"
      and least: "\<forall>j<i. name (routes rt ! j) \<noteq> n"
  shows "fst (resolveUrl X n ps rt) = runUrlCase (getRouteUrlResolveCode X (routes rt ! i)) ps"
proof -
  have f: "f = map (getRouteUrlResolveCode X) (routes rt)"
    using built by (rule buildUrlResolver_Inr)
  have "runSwitch f n ps = runUrlCase (f ! i) ps"
  proof (rule runSwitch_nth)
    show "i < length f" using i f by simp
    show "caseLabel (f ! i) = n" using i f by (simp add: getRouteUrlResolveCode_def)
    show "\<forall>j<i. caseLabel (f ! j) \<noteq> n" using i least f by (simp add: getRouteUrlResolveCode_def)
  qed
  then show ?thesis using resolveUrl_current [OF cache built] f i by simp
qed

lemma resolveUrl_built:
  "resolveFn rt = Some f \<Longrightarrow> resolveUrl X n ps rt = (runSwitch f n ps, rt)"
  by (simp add: resolveUrl_def)

lemma resolveUrl_first_build:
  "resolveFn rt = None \<Longrightarrow> buildUrlResolver X (routes rt) = Inr f \<Longrightarrow>
   resolveFn (snd (resolveUrl X n ps rt)) = Some f"
  by (simp add: resolveUrl_def)

lemma resolveUrl_routes: "routes (snd (resolveUrl X n ps rt)) = routes rt"
  by (auto simp: resolveUrl_def split: option.splits sum.splits)

lemma resolveUrl_fn: "fn (snd (resolveUrl X n ps rt)) = fn rt"
  by (auto simp: resolveUrl_def split: option.splits sum.splits)

lemma resolveUrl_contextMatch: "contextMatch (snd (resolveUrl X n ps rt)) = contextMatch rt"
  by (auto simp: resolveUrl_def split: option.splits sum.splits)

text \<open>
  C2 (as the code has it). When several routes are registered under one name, the name
  resolves against the earliest-registered route of that name: the clauses of the
  generated \<open>switch\<close> stand in registration order and the first clause with the label
  returns. This holds on the first call, which compiles the resolver, and on every
  call that finds the resolver compiled from the present routes; the call leaves this
  resolver in place.
\<close>

theorem resolveUrl_first_registered:
  assumes cache: "resolveFn rt = None \<or> resolveFn rt = Some f"
      and built: "buildUrlResolver X (routes rt) = Inr f"
      and i: "i < length (routes rt)" "name (routes rt ! i) = n"
      and least: "\<forall>j<i. name (routes rt ! j) \<noteq> n"
  shows "fst (resolveUrl X n ps rt) = runUrlCase (getRouteUrlResolveCode X (routes rt ! i)) ps
       \<and> snd (resolveUrl X n ps rt) = rt\<lparr>resolveFn := Some f\<rparr>"
  using resolveUrl_nth [OF cache built i least] resolveUrl_current [OF cache built] by simp

theorem resolveUrl_first_registered_witness:
  "fst (resolveUrl exampleExternals ''b'' []
         (newRouter [exampleRoute ''a'' ''/x'' [], exampleRoute ''b'' ''/y'' [], exampleRoute ''b'' ''/z'' []]))
   = Inr ''/y''
   \<and> fst (resolveUrl exampleExternals ''b'' []
         (snd (resolveUrl exampleExternals ''a'' []
            (newRouter [exampleRoute ''a'' ''/x'' [], exampleRoute ''b'' ''/y'' [], exampleRoute ''b'' ''/z'' []]))))
   = Inr ''/y''"
proof -
  let ?X = exampleExternals
  let ?rs = "[exampleRoute ''a'' ''/x'' [], exampleRoute ''b'' ''/y'' [], exampleRoute ''b'' ''/z'' []]"
  let ?f = "map (getRouteUrlResolveCode ?X) ?rs"
  let ?rt1 = "snd (resolveUrl ?X ''a'' [] (newRouter ?rs))"
  have b: "buildUrlResolver ?X ?rs = Inr ?f"
    by (simp add: example_simps resolver_simps)
  have b0: "buildUrlResolver ?X (routes (newRouter ?rs)) = Inr ?f"
    using b by (simp add: newRouter_def)
  have c0: "resolveFn (newRouter ?rs) = None \<or> resolveFn (newRouter ?rs) = Some ?f"
    by (simp add: newRouter_def)
  have r1: "routes ?rt1 = ?rs" by (simp add: resolveUrl_routes newRouter_def)
  have b1: "buildUrlResolver ?X (routes ?rt1) = Inr ?f"
    using b r1 by simp
  have c1: "resolveFn ?rt1 = None \<or> resolveFn ?rt1 = Some ?f"
    using resolveUrl_first_build [OF _ b0, of "''a''" "[]"] by (simp add: newRouter_def)
  have v: "runUrlCase (getRouteUrlResolveCode ?X (?rs ! 1)) [] = Inr ''/y''"
    by (simp add: example_simps resolver_simps)
  have "fst (resolveUrl ?X ''b'' [] (newRouter ?rs))
        = runUrlCase (getRouteUrlResolveCode ?X (routes (newRouter ?rs) ! 1)) []"
    using resolveUrl_first_registered [OF c0 b0, of 1 "''b''" "[]"] by (simp add: example_simps)
  moreover have "fst (resolveUrl ?X ''b'' [] ?rt1)
        = runUrlCase (getRouteUrlResolveCode ?X (routes ?rt1 ! 1)) []"
    using resolveUrl_first_registered [OF c1 b1, of 1 "''b''" "[]"] unfolding r1
    by (simp add: exampleRoute_def)
  ultimately show ?thesis using v r1 by (simp add: newRouter_def)
qed

text \<open>
  C2 as stated fails: with two routes named \<open>a\<close>, at \<open>/x\<close> and then at \<open>/y\<close>, the name
  resolves to \<open>/x\<close>, the URL of the first, while the last-registered route has \<open>/y\<close>.
\<close>

theorem resolveUrl_last_registered_counterexample:
  "fst (resolveUrl exampleExternals ''a'' []
         (newRouter [exampleRoute ''a'' ''/x'' [], exampleRoute ''a'' ''/y'' []])) = Inr ''/x''
   \<and> runUrlCase (getRouteUrlResolveCode exampleExternals
                   (last [exampleRoute ''a'' ''/x'' [], exampleRoute ''a'' ''/y'' []])) [] = Inr ''/y''"
  by (simp add: example_simps resolver_simps)

subsection \<open>Dispatch order\<close>

lemma runRoutes_select:
  "fst (runRoutes X request m p (requestQuery X (getUrl request)) i cs mv)
   = map_option (resolution X request) (selectRoute m p i cs)"
  by (induction cs arbitrary: i mv) (auto simp: resolution_def split: option.splits)

lemma runRoutes_match:
  "snd (runRoutes X request m p q i cs mv) = matchAfter m p cs mv"
  by (induction cs arbitrary: i mv) (auto simp: accepts_def split: option.splits)

lemma dispatch_select:
  "fst (dispatch X cs request mv)
   = map_option (resolution X request)
       (selectRoute (toLowerCase (getMethod request)) (requestPath (getUrl request)) 0 cs)"
  by (simp add: dispatch_def runRoutes_select)

lemma dispatch_match:
  "snd (dispatch X cs request mv)
   = matchAfter (toLowerCase (getMethod request)) (requestPath (getUrl request)) cs mv"
  by (simp add: dispatch_def runRoutes_match)

lemma selectRoute_skip:
  "\<forall>c \<in> set cs. \<not> accepts c m p \<Longrightarrow> selectRoute m p i (cs @ ds) = selectRoute m p (i + length cs) ds"
  by (induction cs arbitrary: i) (auto simp: accepts_def split: option.splits)

lemma selectRoute_none:
  "\<forall>c \<in> set cs. \<not> accepts c m p \<Longrightarrow> selectRoute m p i cs = None"
  by (induction cs arbitrary: i) (auto simp: accepts_def split: option.splits)

lemma selectRoute_nth:
  assumes "i < length cs" and "accepts (cs ! i) m p" and "\<forall>j<i. \<not> accepts (cs ! j) m p"
  shows "\<exists>caps. selectRoute m p k cs = Some (k + i, cs ! i, caps)"
proof -
  have split: "cs = take i cs @ (cs ! i) # drop (Suc i) cs"
    using assms(1) by (simp add: id_take_nth_drop)
  have "\<forall>c \<in> set (take i cs). \<not> accepts c m p"
  proof
    fix c assume "c \<in> set (take i cs)"
    then obtain j where "j < i" "c = cs ! j"
      using assms(1) by (auto simp: in_set_conv_nth)
    then show "\<not> accepts c m p" using assms(3) by simp
  qed
  then have "selectRoute m p k (take i cs @ (cs ! i) # drop (Suc i) cs)
             = selectRoute m p (k + length (take i cs)) ((cs ! i) # drop (Suc i) cs)"
    by (rule selectRoute_skip)
  then have "selectRoute m p k cs = selectRoute m p (k + i) ((cs ! i) # drop (Suc i) cs)"
    using split assms(1) by simp
  then show ?thesis using assms(2) by (auto simp: accepts_def split: option.splits)
qed

lemma selectRoute_Some:
  "selectRoute m p s cs = Some (k, c, caps) \<Longrightarrow>
   s \<le> k \<and> k - s < length cs \<and> c = cs ! (k - s) \<and> m = compiledMethod c
   \<and> runMatcher (compiledMatcher c) p = Some caps"
proof (induction cs arbitrary: s)
  case Nil
  then show ?case by simp
next
  case (Cons d ds)
  show ?case
  proof (cases "if m = compiledMethod d then runMatcher (compiledMatcher d) p else None")
    case None
    with Cons.prems have "selectRoute m p (Suc s) ds = Some (k, c, caps)" by simp
    from Cons.IH [OF this] show ?thesis by (auto simp: Suc_diff_le)
  next
    case (Some a)
    with Cons.prems show ?thesis by (auto split: if_splits)
  qed
qed

text \<open>
  After a dispatch that returns a route matched by a pattern, \<open>_match\<close> holds the captures
  of that route.
\<close>

lemma matchAfter_selected:
  "selectRoute m p s cs = Some (k, c, caps) \<Longrightarrow> compiledMatcher c = PrefixRegexMatch prefix re \<Longrightarrow>
   matchAfter m p cs mv = Some caps"
proof (induction cs arbitrary: s mv)
  case Nil
  then show ?case by simp
next
  case (Cons d ds)
  show ?case
  proof (cases "accepts d m p")
    case True
    then obtain a where a: "m = compiledMethod d" "runMatcher (compiledMatcher d) p = Some a"
      by (auto simp: accepts_def)
    with Cons.prems(1) have "c = d" "caps = a" by simp_all
    with a Cons.prems(2) True show ?thesis
      by (auto simp: assignMatch_def runMatcher_def split: if_splits)
  next
    case False
    then have "selectRoute m p (Suc s) ds = Some (k, c, caps)"
      using Cons.prems(1) by (auto simp: accepts_def split: option.splits if_splits)
    from Cons.IH [OF this Cons.prems(2)] False show ?thesis by simp
  qed
qed

lemma compileRoutes_length:
  "compileRoutes X rs = Inr cs \<Longrightarrow> length cs = length rs"
  by (induction rs arbitrary: cs) (auto split: sum.splits)

lemma compileRoutes_nth:
  "compileRoutes X rs = Inr cs \<Longrightarrow> i < length rs \<Longrightarrow> getRouteCode X (rs ! i) = Inr (cs ! i)"
proof (induction rs arbitrary: cs i)
  case Nil
  then show ?case by simp
next
  case (Cons r rs)
  then show ?case by (cases i) (auto split: sum.splits)
qed

lemma build_Inr: "build X rs = Inr cs \<Longrightarrow> compileRoutes X rs = Inr cs"
  by (auto simp: build_def split: if_splits)

lemma getRouteCode_config: "getRouteCode X r = Inr c \<Longrightarrow> compiledConfig c = r"
  by (auto simp: getRouteCode_def Let_def split: sum.splits)

lemma getRouteCode_method: "getRouteCode X r = Inr c \<Longrightarrow> compiledMethod c = toLowerCase (httpMethod r)"
  by (auto simp: getRouteCode_def Let_def split: sum.splits)

lemma getRouteCode_parsed: "getRouteCode X r = Inr c \<Longrightarrow> compiledParsed c = parseRouteControllerAction X r"
  by (auto simp: getRouteCode_def Let_def split: sum.splits)

lemma parsedParameters_empty:
  "(parsedParameters (parseRouteControllerAction X r) = []) = (methodProperties r = [])"
  by (simp add: parseRouteControllerAction_def Let_def)

lemma getRouteCode_matcher:
  "getRouteCode X r = Inr c \<Longrightarrow> methodProperties r \<noteq> [] \<Longrightarrow>
   \<exists>re. compiledMatcher c = PrefixRegexMatch (literalPrefix (getFullPath X r)) re"
  by (auto simp: getRouteCode_def Let_def parsedParameters_empty split: sum.splits)

lemma routeMatches_accepts:
  "getRouteCode X r = Inr c \<Longrightarrow>
   routeMatches X r request = accepts c (toLowerCase (getMethod request)) (requestPath (getUrl request))"
  by (simp add: routeMatches_def accepts_def)

text \<open>
  A router whose dispatcher is unset, or was compiled from the routes it has now,
  answers a request from the dispatcher of its routes and keeps that dispatcher; a new
  dispatcher starts from \<open>_match = null\<close>.
\<close>

lemma resolveRequest_current:
  assumes "fn rt = None \<or> fn rt = Some cs" and "build X (routes rt) = Inr cs"
  shows "resolveRequest X request rt
         = (Inr (fst (dispatch X cs request (if fn rt = None then None else contextMatch rt))),
            rt\<lparr>fn := Some cs,
               contextMatch := snd (dispatch X cs request (if fn rt = None then None else contextMatch rt))\<rparr>)"
  using assms by (auto simp: resolveRequest_def)

lemma resolveRequest_fields:
  "routes (snd (resolveRequest X request rt)) = routes rt"
  "resolveFn (snd (resolveRequest X request rt)) = resolveFn rt"
  by (auto simp: resolveRequest_def split: option.splits sum.splits)

lemma addRoute_fields:
  "resolveFn (addRoute r rt) = resolveFn rt" "fn (addRoute r rt) = None"
  "routes (addRoute r rt) = routes rt @ [r]" "contextMatch (addRoute r rt) = contextMatch rt"
  by (simp_all add: addRoute_def)

text \<open>
  Every call leaves a dispatcher in \<open>fn\<close> that is the one of the present routes, so
  a router that was created with its routes and then used has it: the condition on
  \<open>fn\<close> in the theorems below holds in every state the code reaches.
\<close>

lemma step_dispatcherCurrent:
  "dispatcherCurrent X rt \<Longrightarrow> dispatcherCurrent X (step X rt call)"
  by (cases call)
     (auto simp: dispatcherCurrent_def addRoute_def resolveUrl_def resolveRequest_def
           split: option.splits sum.splits)

lemma reachable_dispatcherCurrent:
  "dispatcherCurrent X (foldl (step X) (newRouter rs) calls)"
proof -
  have "dispatcherCurrent X rt \<Longrightarrow> dispatcherCurrent X (foldl (step X) rt calls)" for rt
    by (induction calls arbitrary: rt) (auto simp: step_dispatcherCurrent)
  then show ?thesis by (simp add: dispatcherCurrent_def newRouter_def)
qed

lemma dispatcherCurrent_cache:
  "dispatcherCurrent X rt \<Longrightarrow> build X (routes rt) = Inr cs \<Longrightarrow> fn rt = None \<or> fn rt = Some cs"
  by (auto simp: dispatcherCurrent_def split: option.splits)

text \<open>
  The resolver in \<open>resolveFn\<close> is the one of the present routes as long as no route is
  added after it was compiled.
\<close>

lemma step_resolverCurrent:
  "resolverCurrent X rt \<Longrightarrow> \<not> isAddRoute call \<Longrightarrow> resolverCurrent X (step X rt call)"
  by (cases call)
     (auto simp: resolverCurrent_def isAddRoute_def resolveUrl_def resolveRequest_def
           split: option.splits sum.splits)

lemma reachable_resolverCurrent:
  "\<forall>call \<in> set calls. \<not> isAddRoute call \<Longrightarrow> resolverCurrent X (foldl (step X) (newRouter rs) calls)"
proof -
  have "resolverCurrent X rt \<Longrightarrow> \<forall>call \<in> set calls. \<not> isAddRoute call
        \<Longrightarrow> resolverCurrent X (foldl (step X) rt calls)" for rt
    by (induction calls arbitrary: rt) (auto simp: step_resolverCurrent)
  then show "\<forall>call \<in> set calls. \<not> isAddRoute call \<Longrightarrow> resolverCurrent X (foldl (step X) (newRouter rs) calls)"
    by (simp add: resolverCurrent_def newRouter_def)
qed

lemma resolverCurrent_cache:
  "resolverCurrent X rt \<Longrightarrow> buildUrlResolver X (routes rt) = Inr f \<Longrightarrow>
   resolveFn rt = None \<or> resolveFn rt = Some f"
  by (auto simp: resolverCurrent_def split: option.splits)

text \<open>
  C5. The routes are tried in registration order and the first route whose condition
  holds is returned: if route \<open>i\<close> matches the request (method compared in lower case,
  then the path) and no earlier route does, the dispatcher returns route \<open>i\<close>, whatever
  later routes match and however specific they are. What it returns is the route's
  configuration and, for a handler with parameters, the parameter function of the
  route with the query and the body of the request; \<open>_match\<close> then holds the captures of
  the route. The call leaves the dispatcher of the present routes in \<open>fn\<close> and the other
  fields as they were.
\<close>

theorem resolveRequest_earliest_match:
  assumes cache: "fn rt = None \<or> fn rt = Some cs"
      and built: "build X (routes rt) = Inr cs"
      and i: "i < length (routes rt)" "routeMatches X (routes rt ! i) request"
      and least: "\<forall>j<i. \<not> routeMatches X (routes rt ! j) request"
  shows "\<exists>res. fst (resolveRequest X request rt) = Inr (Some res)
           \<and> routeIndex res = i \<and> routeConfig res = routes rt ! i
           \<and> toLowerCase (getMethod request) = toLowerCase (httpMethod (routes rt ! i))
           \<and> resolvedParameters res
               = (if methodProperties (routes rt ! i) = [] then None
                  else Some (parametersFunction X (parseRouteControllerAction X (routes rt ! i))
                               (requestQuery X (getUrl request)) (requestBody request)))
           \<and> (methodProperties (routes rt ! i) \<noteq> [] \<longrightarrow>
                contextMatch (snd (resolveRequest X request rt))
                  = routeCaptures X (routes rt ! i) (requestPath (getUrl request))
                \<and> routeCaptures X (routes rt ! i) (requestPath (getUrl request)) \<noteq> None)
           \<and> fn (snd (resolveRequest X request rt)) = Some cs
           \<and> routes (snd (resolveRequest X request rt)) = routes rt
           \<and> resolveFn (snd (resolveRequest X request rt)) = resolveFn rt"
proof -
  let ?m = "toLowerCase (getMethod request)" and ?p = "requestPath (getUrl request)"
  let ?r = "routes rt ! i"
  let ?mv = "if fn rt = None then None else contextMatch rt"
  have comp: "compileRoutes X (routes rt) = Inr cs" using built by (rule build_Inr)
  have len: "length cs = length (routes rt)" using comp by (rule compileRoutes_length)
  have code: "\<And>j. j < length (routes rt) \<Longrightarrow> getRouteCode X (routes rt ! j) = Inr (cs ! j)"
    using comp by (rule compileRoutes_nth)
  have ci: "getRouteCode X ?r = Inr (cs ! i)" using code i(1) by simp
  have a: "accepts (cs ! i) ?m ?p"
    using i(2) routeMatches_accepts [OF ci, of request] by simp
  have b: "\<forall>j<i. \<not> accepts (cs ! j) ?m ?p"
  proof (intro allI impI)
    fix j assume "j < i"
    then have "j < length (routes rt)" using i(1) by simp
    from code [OF this] have "routeMatches X (routes rt ! j) request = accepts (cs ! j) ?m ?p"
      by (rule routeMatches_accepts)
    with least \<open>j < i\<close> show "\<not> accepts (cs ! j) ?m ?p" by blast
  qed
  from selectRoute_nth [of i cs ?m ?p 0] a b i(1) len
  obtain caps where sel: "selectRoute ?m ?p 0 cs = Some (i, cs ! i, caps)" by auto
  from selectRoute_Some [OF sel] have caps: "runMatcher (compiledMatcher (cs ! i)) ?p = Some caps"
    by simp
  have rr: "resolveRequest X request rt
            = (Inr (fst (dispatch X cs request ?mv)),
               rt\<lparr>fn := Some cs, contextMatch := snd (dispatch X cs request ?mv)\<rparr>)"
    using cache built by (rule resolveRequest_current)
  have d: "fst (dispatch X cs request ?mv) = Some (resolution X request (i, cs ! i, caps))"
    by (simp add: dispatch_select sel)
  have m: "?m = toLowerCase (httpMethod ?r)"
    using a getRouteCode_method [OF ci] by (simp add: accepts_def)
  have prm: "resolvedParameters (resolution X request (i, cs ! i, caps))
             = (if methodProperties ?r = [] then None
                else Some (parametersFunction X (parseRouteControllerAction X ?r)
                             (requestQuery X (getUrl request)) (requestBody request)))"
    using getRouteCode_parsed [OF ci] by (simp add: resolution_def parsedParameters_empty)
  have mt: "snd (dispatch X cs request ?mv) = routeCaptures X ?r ?p
            \<and> routeCaptures X ?r ?p \<noteq> None" if ne: "methodProperties ?r \<noteq> []"
  proof -
    from getRouteCode_matcher [OF ci ne] obtain re where
      "compiledMatcher (cs ! i) = PrefixRegexMatch (literalPrefix (getFullPath X ?r)) re" by blast
    from matchAfter_selected [OF sel this] have "snd (dispatch X cs request ?mv) = Some caps"
      by (simp add: dispatch_match)
    then show ?thesis using ci caps by (simp add: routeCaptures_def)
  qed
  show ?thesis
    unfolding rr using d m prm mt getRouteCode_config [OF ci]
    by (simp add: resolution_def)
qed

lemma requestPath_takeWhile: "requestPath u = takeWhile (\<lambda>c. c \<noteq> CHR ''?'') u"
proof -
  have "(case indexOf u c of None \<Rightarrow> u | Some i \<Rightarrow> take i u) = takeWhile (\<lambda>x. x \<noteq> c) u" for c
    by (induction u) (auto split: option.splits)
  then show ?thesis by (simp add: requestPath_def)
qed

text \<open>
  C10. Two requests with the same method whose URLs agree before the first \<open>?\<close> select
  the same route, or both none: the router answers both with the same position and the
  same \<open>RouteConfig\<close>, the two resolutions are built from one selection (route and
  position), so they differ at most in the query object and the body their parameter
  functions read, and both calls leave the same value in \<open>_match\<close>.
\<close>

theorem route_selection_ignores_query:
  assumes m: "getMethod r1 = getMethod r2"
      and p: "takeWhile (\<lambda>c. c \<noteq> CHR ''?'') (getUrl r1) = takeWhile (\<lambda>c. c \<noteq> CHR ''?'') (getUrl r2)"
  shows "((\<exists>e. fst (resolveRequest X r1 rt) = Inl e \<and> fst (resolveRequest X r2 rt) = Inl e)
          \<or> (\<exists>sel. fst (resolveRequest X r1 rt) = Inr (map_option (resolution X r1) sel)
                   \<and> fst (resolveRequest X r2 rt) = Inr (map_option (resolution X r2) sel)))
         \<and> map_sum id (map_option routeIndex) (fst (resolveRequest X r1 rt))
             = map_sum id (map_option routeIndex) (fst (resolveRequest X r2 rt))
         \<and> map_sum id (map_option routeConfig) (fst (resolveRequest X r1 rt))
             = map_sum id (map_option routeConfig) (fst (resolveRequest X r2 rt))
         \<and> contextMatch (snd (resolveRequest X r1 rt)) = contextMatch (snd (resolveRequest X r2 rt))"
proof -
  have eq: "selectRoute (toLowerCase (getMethod r1)) (requestPath (getUrl r1)) 0 cs
          = selectRoute (toLowerCase (getMethod r2)) (requestPath (getUrl r2)) 0 cs" for cs
    using m p by (simp add: requestPath_takeWhile)
  have d: "\<exists>sel. fst (dispatch X cs r1 mv) = map_option (resolution X r1) sel
              \<and> fst (dispatch X cs r2 mv) = map_option (resolution X r2) sel" for cs mv
    using eq [of cs] by (auto simp: dispatch_select)
  have i: "map_option routeIndex (fst (dispatch X cs r1 mv)) = map_option routeIndex (fst (dispatch X cs r2 mv))"
    for cs mv
    using eq [of cs] by (simp add: dispatch_select option.map_comp comp_def resolution_def)
  have c: "map_option routeConfig (fst (dispatch X cs r1 mv)) = map_option routeConfig (fst (dispatch X cs r2 mv))"
    for cs mv
    using eq [of cs] by (simp add: dispatch_select option.map_comp comp_def resolution_def)
  have s: "snd (dispatch X cs r1 mv) = snd (dispatch X cs r2 mv)" for cs mv
    using m p by (simp add: dispatch_match requestPath_takeWhile)
  show ?thesis
  proof (cases "fn rt")
    case (Some f)
    then show ?thesis
      using d [of f "contextMatch rt"] i [of f "contextMatch rt"] c [of f "contextMatch rt"]
        s [of f "contextMatch rt"]
      by (simp add: resolveRequest_def)
  next
    case None
    show ?thesis
    proof (cases "build X (routes rt)")
      case (Inl e)
      then show ?thesis using None by (simp add: resolveRequest_def)
    next
      case (Inr f)
      then show ?thesis
        using None d [of f None] i [of f None] c [of f None] s [of f None]
        by (simp add: resolveRequest_def)
    qed
  qed
qed

lemma step_keeps_resolveFn:
  "resolveFn rt = Some f \<Longrightarrow> resolveFn (step X rt call) = Some f"
  by (cases call) (auto simp: addRoute_def resolveUrl_def resolveRequest_def split: option.splits sum.splits)

lemma steps_keep_resolveFn:
  "resolveFn rt = Some f \<Longrightarrow> resolveFn (foldl (step X) rt calls) = Some f"
  by (induction calls arbitrary: rt) (auto simp: step_keeps_resolveFn)

subsection \<open>Concrete dispatches\<close>

lemmas regex_simps =
  newRegExp_def parseNormal_def parseEscape_def parseClass_def parseClassEscape_def
  pushAtom_def pushAssertion_def quantify_def parseFinish_def closeFrame_def mkSeq_def
  classEscape_def isAsciiPunctuation_def
  stringMatch_def isLineTerminator_def classMatches_def itemMatches_def clearGroups_def
  isDigitChar_def isSpaceChar_def

lemmas dispatch_simps =
  resolveRequest_def build_def routeModelled_def getRouteCode_def literalPrefix_def
  runMatcher_def assignMatch_def dispatch_def requestPath_def requestQuery_def
  toLowerCase_def lowerChar_def
  textSafe_def ownName_def objectPrototypeNames_def routeMatches_def routeCaptures_def
  query_def body_def queryPathOf_def parameterTypePath_def getName_def
  Let_def char_of_def bit_Suc_0_iff isBodyValidation_def

lemma example_overlap_builds: "\<exists>cs. build exampleExternals
         [exampleRoute ''first'' ''/a/:id'' [exampleProperty ''id'' ''any''],
          exampleRoute ''second'' ''/a/b'' []] = Inr cs"
  by (simp add: example_simps dispatch_simps regex_simps)

lemma example_overlap_first: "routeMatches exampleExternals (exampleRoute ''first'' ''/a/:id'' [exampleProperty ''id'' ''any''])
     \<lparr>getMethod = ''get'', getUrl = ''/a/b'', requestBody = None\<rparr>"
  by (simp add: example_simps dispatch_simps regex_simps)

lemma example_overlap_second: "routeMatches exampleExternals (exampleRoute ''second'' ''/a/b'' [])
     \<lparr>getMethod = ''get'', getUrl = ''/a/b'', requestBody = None\<rparr>"
  by (simp add: example_simps dispatch_simps regex_simps)

lemma example_overlap_captures:
  "routeCaptures exampleExternals (exampleRoute ''first'' ''/a/:id'' [exampleProperty ''id'' ''any'']) ''/a/b''
   = Some [0 \<mapsto> ''b'']"
  by (simp add: example_simps dispatch_simps regex_simps)

theorem resolveRequest_earliest_match_witness:
  "\<exists>res f. fst (resolveRequest exampleExternals \<lparr>getMethod = ''get'', getUrl = ''/a/b'', requestBody = None\<rparr>
               (snd (resolveRequest exampleExternals \<lparr>getMethod = ''get'', getUrl = ''/zzz'', requestBody = None\<rparr>
                  (newRouter [exampleRoute ''first'' ''/a/:id'' [exampleProperty ''id'' ''any''],
                              exampleRoute ''second'' ''/a/b'' []])))) = Inr (Some res)
         \<and> routeIndex res = 0
         \<and> name (routeConfig res) = ''first''
         \<and> resolvedParameters res = Some f
         \<and> f (contextMatch
                (snd (resolveRequest exampleExternals \<lparr>getMethod = ''get'', getUrl = ''/a/b'', requestBody = None\<rparr>
                  (snd (resolveRequest exampleExternals \<lparr>getMethod = ''get'', getUrl = ''/zzz'', requestBody = None\<rparr>
                     (newRouter [exampleRoute ''first'' ''/a/:id'' [exampleProperty ''id'' ''any''],
                                 exampleRoute ''second'' ''/a/b'' []]))))))
              (\<lambda>c. JNull) = Inr [JStr ''b'']
         \<and> routeMatches exampleExternals (exampleRoute ''second'' ''/a/b'' [])
              \<lparr>getMethod = ''get'', getUrl = ''/a/b'', requestBody = None\<rparr>"
proof -
  let ?X = exampleExternals
  let ?rs = "[exampleRoute ''first'' ''/a/:id'' [exampleProperty ''id'' ''any''],
              exampleRoute ''second'' ''/a/b'' []]"
  let ?rq = "\<lparr>getMethod = ''get'', getUrl = ''/a/b'', requestBody = None\<rparr>"
  let ?rt = "snd (resolveRequest ?X \<lparr>getMethod = ''get'', getUrl = ''/zzz'', requestBody = None\<rparr> (newRouter ?rs))"
  obtain cs where b0: "build ?X ?rs = Inr cs"
    using example_overlap_builds by auto
  have rs: "routes ?rt = ?rs" by (simp add: resolveRequest_fields newRouter_def)
  have b: "build ?X (routes ?rt) = Inr cs" using b0 rs by simp
  have "dispatcherCurrent ?X (foldl (step ?X) (newRouter ?rs)
          [CallResolveRequest \<lparr>getMethod = ''get'', getUrl = ''/zzz'', requestBody = None\<rparr>])"
    by (rule reachable_dispatcherCurrent)
  then have "dispatcherCurrent ?X ?rt" by simp
  from dispatcherCurrent_cache [OF this b] have cache: "fn ?rt = None \<or> fn ?rt = Some cs" .
  have i: "0 < length (routes ?rt)" using rs by simp
  have m: "routeMatches ?X (routes ?rt ! 0) ?rq"
    using example_overlap_first rs by simp
  have l: "\<forall>j<0. \<not> routeMatches ?X (routes ?rt ! j) ?rq" by simp
  from resolveRequest_earliest_match [OF cache b i m l]
  obtain res where res: "fst (resolveRequest ?X ?rq ?rt) = Inr (Some res)"
    and idx: "routeIndex res = 0" and cfg: "routeConfig res = routes ?rt ! 0"
    and prm: "resolvedParameters res
               = (if methodProperties (routes ?rt ! 0) = [] then None
                  else Some (parametersFunction ?X (parseRouteControllerAction ?X (routes ?rt ! 0))
                               (requestQuery ?X (getUrl ?rq)) (requestBody ?rq)))"
    and cm: "methodProperties (routes ?rt ! 0) \<noteq> [] \<longrightarrow>
                contextMatch (snd (resolveRequest ?X ?rq ?rt))
                  = routeCaptures ?X (routes ?rt ! 0) (requestPath (getUrl ?rq))"
    by blast
  from cm rs example_overlap_captures
  have mv: "contextMatch (snd (resolveRequest ?X ?rq ?rt)) = Some [0 \<mapsto> ''b'']"
    by (simp add: exampleRoute_def requestPath_def)
  have f: "parametersFunction ?X (parseRouteControllerAction ?X (?rs ! 0))
             (requestQuery ?X (getUrl ?rq)) (requestBody ?rq) (Some [0 \<mapsto> ''b'']) (\<lambda>c. JNull)
           = Inr [JStr ''b'']"
    by (simp add: example_simps dispatch_simps parametersFunction_def enableParseBody_def hasSink_def
        bindings_def classify_def validateParameter_def setParameter_def argumentValidator_def
        argumentConverter_def captured_def)
  from prm rs have "resolvedParameters res
        = Some (parametersFunction ?X (parseRouteControllerAction ?X (?rs ! 0))
                  (requestQuery ?X (getUrl ?rq)) (requestBody ?rq))"
    by (simp add: exampleRoute_def)
  with res idx cfg rs f mv example_overlap_second show ?thesis
    by (auto simp: exampleRoute_def)
qed

theorem route_selection_ignores_query_witness:
  "map_sum id (map_option routeIndex)
     (fst (resolveRequest exampleExternals \<lparr>getMethod = ''GET'', getUrl = ''/a/b?x=1'', requestBody = None\<rparr>
            (newRouter [exampleRoute ''first'' ''/a/:id'' [exampleProperty ''id'' ''any'']])))
   = map_sum id (map_option routeIndex)
     (fst (resolveRequest exampleExternals \<lparr>getMethod = ''GET'', getUrl = ''/a/b?y=2&z=3'', requestBody = None\<rparr>
            (newRouter [exampleRoute ''first'' ''/a/:id'' [exampleProperty ''id'' ''any'']])))
   \<and> map_sum id (map_option routeIndex)
     (fst (resolveRequest exampleExternals \<lparr>getMethod = ''GET'', getUrl = ''/a/b?x=1'', requestBody = None\<rparr>
            (newRouter [exampleRoute ''first'' ''/a/:id'' [exampleProperty ''id'' ''any'']]))) = Inr (Some 0)"
proof -
  let ?r1 = "\<lparr>getMethod = ''GET'', getUrl = ''/a/b?x=1'', requestBody = None\<rparr>"
  let ?r2 = "\<lparr>getMethod = ''GET'', getUrl = ''/a/b?y=2&z=3'', requestBody = None\<rparr>"
  let ?rt = "newRouter [exampleRoute ''first'' ''/a/:id'' [exampleProperty ''id'' ''any'']]"
  have m: "getMethod ?r1 = getMethod ?r2" by simp
  have p: "takeWhile (\<lambda>c. c \<noteq> CHR ''?'') (getUrl ?r1) = takeWhile (\<lambda>c. c \<noteq> CHR ''?'') (getUrl ?r2)"
    by simp
  have v: "map_sum id (map_option routeIndex) (fst (resolveRequest exampleExternals ?r1 ?rt)) = Inr (Some 0)"
    by (simp add: example_simps dispatch_simps regex_simps)
  show ?thesis
    using route_selection_ignores_query [OF m p, of exampleExternals ?rt] v by simp
qed

subsection \<open>The cached resolver\<close>

lemma resolveRequest_fresh:
  "fn rt = None \<Longrightarrow>
   fst (resolveRequest X request rt)
   = (case build X (routes rt) of Inl e \<Rightarrow> Inl e | Inr cs \<Rightarrow> Inr (fst (dispatch X cs request None)))"
  by (auto simp: resolveRequest_def split: sum.splits)

text \<open>
  C9. \<open>addRoute\<close> appends the route and clears \<open>fn\<close> only. Once a call of \<open>resolveUrl\<close>
  has built the resolver from the routes of that moment, the resolver stays through
  every later call on the router: \<open>resolveUrl\<close> keeps answering from the clauses of the
  old routes, a route added afterwards under a new name is reported as not found, and
  \<open>resolveRequest\<close> rebuilds its dispatcher from the routes including the new one.
\<close>

theorem resolveUrl_stale_after_addRoute:
  assumes fresh: "resolveFn rt0 = None"
      and built: "buildUrlResolver X (routes rt0) = Inr f"
      and rt1: "rt1 = snd (resolveUrl X n1 ps1 rt0)"
  shows "f = map (getRouteUrlResolveCode X) (routes rt0)
       \<and> resolveFn (addRoute r rt1) = Some f
       \<and> fn (addRoute r rt1) = None
       \<and> routes (addRoute r rt1) = routes rt0 @ [r]
       \<and> (\<forall>calls n ps. fst (resolveUrl X n ps (foldl (step X) (addRoute r rt1) calls)) = runSwitch f n ps)
       \<and> ((\<forall>r0 \<in> set (routes rt0). name r0 \<noteq> name r) \<longrightarrow>
            (\<forall>calls ps. fst (resolveUrl X (name r) ps (foldl (step X) (addRoute r rt1) calls))
                          = Inl (NoRouteForName (name r))))
       \<and> (\<forall>request. fst (resolveRequest X request (addRoute r rt1))
            = (case build X (routes rt0 @ [r]) of
                 Inl e \<Rightarrow> Inl e
               | Inr cs \<Rightarrow> Inr (fst (dispatch X cs request None))))"
proof -
  have f: "f = map (getRouteUrlResolveCode X) (routes rt0)"
    using built by (rule buildUrlResolver_Inr)
  have r1: "resolveFn rt1 = Some f"
    using fresh built rt1 by (simp add: resolveUrl_first_build)
  have a: "resolveFn (addRoute r rt1) = Some f"
    using r1 by (simp add: addRoute_fields)
  have rs: "routes (addRoute r rt1) = routes rt0 @ [r]"
    using rt1 by (simp add: addRoute_fields resolveUrl_routes)
  have later: "fst (resolveUrl X n ps (foldl (step X) (addRoute r rt1) calls)) = runSwitch f n ps"
    for calls n ps
    using steps_keep_resolveFn [OF a, of X calls] by (simp add: resolveUrl_built)
  have none: "runSwitch f (name r) ps = Inl (NoRouteForName (name r))"
    if "\<forall>r0 \<in> set (routes rt0). name r0 \<noteq> name r" for ps
    using that f by (intro runSwitch_none) (auto simp: getRouteUrlResolveCode_def)
  have rq: "fst (resolveRequest X request (addRoute r rt1))
            = (case build X (routes rt0 @ [r]) of
                 Inl e \<Rightarrow> Inl e
               | Inr cs \<Rightarrow> Inr (fst (dispatch X cs request None)))"
    for request
    using resolveRequest_fresh [of "addRoute r rt1" X request] rs by (simp add: addRoute_fields)
  show ?thesis using f a rs later none rq by (simp add: addRoute_fields)
qed

theorem resolveUrl_stale_after_addRoute_witness:
  "fst (resolveUrl exampleExternals ''b'' []
         (addRoute (exampleRoute ''b'' ''/y'' [])
            (snd (resolveUrl exampleExternals ''a'' [] (newRouter [exampleRoute ''a'' ''/x'' []])))))
     = Inl (NoRouteForName ''b'')
   \<and> map_sum id (map_option routeIndex)
        (fst (resolveRequest exampleExternals \<lparr>getMethod = ''GET'', getUrl = ''/y'', requestBody = None\<rparr>
           (addRoute (exampleRoute ''b'' ''/y'' [])
              (snd (resolveUrl exampleExternals ''a'' [] (newRouter [exampleRoute ''a'' ''/x'' []]))))))
     = Inr (Some 1)"
proof -
  let ?rt0 = "newRouter [exampleRoute ''a'' ''/x'' []]"
  let ?r = "exampleRoute ''b'' ''/y'' []"
  let ?rq = "\<lparr>getMethod = ''GET'', getUrl = ''/y'', requestBody = None\<rparr>"
  have fresh: "resolveFn ?rt0 = None" by (simp add: newRouter_def)
  have built: "buildUrlResolver exampleExternals (routes ?rt0)
               = Inr (map (getRouteUrlResolveCode exampleExternals) (routes ?rt0))"
    by (simp add: example_simps resolver_simps)
  note t = resolveUrl_stale_after_addRoute [OF fresh built refl, of ?r "''a''" "[]"]
  have new: "\<forall>r0 \<in> set (routes ?rt0). name r0 \<noteq> name ?r"
    by (simp add: example_simps)
  from t new have "\<forall>calls ps. fst (resolveUrl exampleExternals (name ?r) ps
       (foldl (step exampleExternals)
          (addRoute ?r (snd (resolveUrl exampleExternals ''a'' [] ?rt0))) calls))
        = Inl (NoRouteForName (name ?r))"
    by blast
  then have u: "fst (resolveUrl exampleExternals (name ?r) []
       (foldl (step exampleExternals)
          (addRoute ?r (snd (resolveUrl exampleExternals ''a'' [] ?rt0))) []))
        = Inl (NoRouteForName (name ?r))"
    by blast
  from t have q: "fst (resolveRequest exampleExternals ?rq
            (addRoute ?r (snd (resolveUrl exampleExternals ''a'' [] ?rt0))))
        = (case build exampleExternals (routes ?rt0 @ [?r]) of
             Inl e \<Rightarrow> Inl e | Inr cs \<Rightarrow> Inr (fst (dispatch exampleExternals cs ?rq None)))"
    by blast
  have v: "map_sum id (map_option routeIndex)
             (case build exampleExternals (routes ?rt0 @ [?r]) of
                Inl e \<Rightarrow> Inl e | Inr cs \<Rightarrow> Inr (fst (dispatch exampleExternals cs ?rq None))) = Inr (Some 1)"
    by (simp add: example_simps dispatch_simps regex_simps)
  show ?thesis using u q v by (simp add: exampleRoute_def)
qed

subsection \<open>Validation errors and the error sink\<close>

lemma setAll_nth:
  "setAll X m q bf ij be bps = Inr args \<Longrightarrow>
   length args = length bps \<and> (\<forall>i<length bps. setParameter X m q bf ij be (bps ! i) = Inr (args ! i))"
proof (induction bps arbitrary: args)
  case Nil
  then show ?case by simp
next
  case (Cons bp bps)
  from Cons.prems obtain v vs where
    v: "setParameter X m q bf ij be bp = Inr v" and vs: "setAll X m q bf ij be bps = Inr vs"
    and args: "args = v # vs"
    by (auto split: sum.splits)
  from Cons.IH [OF vs] v args show ?case
    by (auto simp: nth_Cons split: nat.splits)
qed







lemma assignIndices_notin: "n \<notin> set ns \<Longrightarrow> assignIndices ns i m n = m n"
  by (induction ns arbitrary: i m) auto



lemma bindings_length:
  "length (bindings (parseRouteControllerAction X r)) = length (methodProperties r)"
  by (simp add: bindings_def parseRouteControllerAction_def Let_def)




lemmas parameter_simps =
  parametersFunction_def enableParseBody_def hasSink_def bindings_def classify_def
  validateParameter_def setParameter_def argumentValidator_def argumentConverter_def
  captured_def queryAccessor_def toString_def sinkProperty_def



subsection \<open>Patterns of plain templates\<close>

lemma parse_plain_char:
  "\<not> isSyntaxChar c \<Longrightarrow>
   parseStep (PState (Frame alts cur k # fs) n l PNormal) c
   = Inr (PState (Frame alts (RChar c # cur) k # fs) n LAtom PNormal)"
  by (simp add: isSyntaxChar_def parseNormal_def pushAtom_def)

lemma parse_segment:
  "parseChars (PState (Frame alts cur k # fs) n l PNormal) (''([^/]+)'' @ rest)
   = parseChars (PState (Frame alts (segmentRx n # cur) k # fs) (Suc n) LAtom PNormal) rest"
  by (simp add: parseNormal_def parseClass_def pushAtom_def quantify_def closeFrame_def mkSeq_def segmentRx_def)

lemma parse_template:
  "plainPieces ps \<Longrightarrow>
   parseChars (PState (Frame alts cur k # fs) n l PNormal) (renderDefault ps @ rest)
   = parseChars (PState (Frame alts (rev (templateRx n ps) @ cur) k # fs) (n + tokenCount ps)
        (if ps = [] then l else LAtom) PNormal) rest"
proof (induction ps arbitrary: cur n l)
  case Nil
  then show ?case by (simp add: renderDefault_def)
next
  case (Cons p ps)
  then have rest: "plainPieces ps" by (simp add: plainPieces_def)
  show ?case
  proof (cases p)
    case (Lit c)
    then have c: "\<not> isSyntaxChar c" using Cons.prems by (simp add: plainPieces_def)
    have "parseChars (PState (Frame alts cur k # fs) n l PNormal) (renderDefault (p # ps) @ rest)
          = parseChars (PState (Frame alts (RChar c # cur) k # fs) n LAtom PNormal) (renderDefault ps @ rest)"
      using Lit parse_plain_char [OF c] by (simp add: renderDefault_def)
    also have "\<dots> = parseChars (PState (Frame alts (rev (templateRx n ps) @ RChar c # cur) k # fs)
                        (n + tokenCount ps) (if ps = [] then LAtom else LAtom) PNormal) rest"
      by (rule Cons.IH [OF rest])
    finally show ?thesis using Lit by simp
  next
    case (Token t)
    have "parseChars (PState (Frame alts cur k # fs) n l PNormal) (renderDefault (p # ps) @ rest)
          = parseChars (PState (Frame alts (segmentRx n # cur) k # fs) (Suc n) LAtom PNormal) (renderDefault ps @ rest)"
      using Token parse_segment [of alts cur k fs n l "renderDefault ps @ rest"]
      by (simp add: renderDefault_def)
    also have "\<dots> = parseChars (PState (Frame alts (rev (templateRx (Suc n) ps) @ segmentRx n # cur) k # fs)
                        (Suc n + tokenCount ps) (if ps = [] then LAtom else LAtom) PNormal) rest"
      by (rule Cons.IH [OF rest])
    finally show ?thesis using Token by simp
  qed
qed

lemma replaceTokens_default:
  "list_all (\<lambda>n. f n = ''([^/]+)'') (tokenNames p) \<Longrightarrow> replaceTokens f p = renderDefault (pieces p)"
proof -
  have "list_all (\<lambda>n. f n = ''([^/]+)'') (concat (map (\<lambda>p. case p of Lit c \<Rightarrow> [] | Token n \<Rightarrow> [n]) ps))
        \<Longrightarrow> concat (map (\<lambda>p. case p of Lit c \<Rightarrow> [c] | Token n \<Rightarrow> f n) ps) = renderDefault ps" for ps
    by (induction ps) (auto simp: renderDefault_def split: piece.splits)
  then show "list_all (\<lambda>n. f n = ''([^/]+)'') (tokenNames p) \<Longrightarrow> replaceTokens f p = renderDefault (pieces p)"
    by (simp add: replaceTokens_def tokenNames_def)
qed

lemma newRegExp_template:
  assumes "plainPieces ps"
  shows "newRegExp (''^'' @ renderDefault ps @ ''$'') = Inr (templatePattern ps)"
proof -
  have "parseChars (PState [Frame [] [] 0] 0 LStart PNormal) (''^'' @ renderDefault ps @ ''$'')
        = parseChars (PState [Frame [] [RBol] 0] 0 LAssert PNormal) (renderDefault ps @ ''$'')"
    by (simp add: parseNormal_def pushAssertion_def)
  also have "\<dots> = parseChars (PState [Frame [] (rev (templateRx 0 ps) @ [RBol]) 0] (0 + tokenCount ps)
                       (if ps = [] then LAssert else LAtom) PNormal) ''$''"
    by (rule parse_template [OF assms])
  also have "\<dots> = Inr (PState [Frame [] (REol # rev (templateRx 0 ps) @ [RBol]) 0] (0 + tokenCount ps) LAssert PNormal)"
    by (simp add: parseNormal_def pushAssertion_def)
  finally show ?thesis
    by (simp add: newRegExp_def parseFinish_def closeFrame_def templatePattern_def)
qed

lemma notSlash_class: "classMatches True [CRange CHR ''/'' CHR ''/''] c = (c \<noteq> CHR ''/'')"
proof -
  have "((of_char CHR ''/'' :: nat) \<le> of_char c \<and> (of_char c :: nat) \<le> of_char CHR ''/'') = (c = CHR ''/'')"
    by (metis of_char_eq_iff order_antisym order_refl)
  then show ?thesis by (simp add: classMatches_def itemMatches_def)
qed

lemma segmentStep_result:
  "st' \<in> set (segmentStep inp st) \<Longrightarrow>
   \<exists>c. c \<noteq> CHR ''/'' \<and> fst st = c # fst st' \<and> snd st' = snd st"
  by (cases "fst st") (auto simp: segmentStep_def notSlash_class clearGroups_def split: if_splits)

lemma starIter_segment:
  "st' \<in> set (starIter (segmentStep inp) n st) \<Longrightarrow>
   \<exists>v. fst st = v @ fst st' \<and> CHR ''/'' \<notin> set v \<and> snd st' = snd st"
proof (induction n arbitrary: st)
  case 0
  then show ?case by simp
next
  case (Suc n)
  from Suc.prems consider (stop) "st' = st"
    | (more) st1 where "st1 \<in> set (segmentStep inp st)" "st' \<in> set (starIter (segmentStep inp) n st1)"
    by (auto split: if_splits)
  then show ?case
  proof cases
    case stop
    then show ?thesis by simp
  next
    case more
    from segmentStep_result [OF more(1)] obtain c where
      c: "c \<noteq> CHR ''/''" "fst st = c # fst st1" "snd st1 = snd st" by blast
    from Suc.IH [OF more(2)] obtain v where
      v: "fst st1 = v @ fst st'" "CHR ''/'' \<notin> set v" "snd st' = snd st1" by blast
    have "fst st = (c # v) @ fst st'" using c v by simp
    moreover have "CHR ''/'' \<notin> set (c # v)" using c v by auto
    ultimately show ?thesis using c v by metis
  qed
qed

lemma concat_map_single: "concat (map (\<lambda>st. [(fst st, snd st)]) xs) = xs"
  by (induction xs) auto

lemma ms_segmentRx_eq:
  "ms inp (segmentRx k) s cp
   = map (\<lambda>st. (fst st, (snd st)(k \<mapsto> take (length s - length (fst st)) s)))
       (concat (map (starIter (segmentStep inp) (length s)) (segmentStep inp (s, cp))))"
proof -
  let ?C = "RClass True [CRange CHR ''/'' CHR ''/'']"
  have f: "(\<lambda>st. ms inp ?C (fst st) (clearGroups (groupsOf ?C) (snd st))) = segmentStep inp"
    by (simp add: segmentStep_def fun_eq_iff)
  have "ms inp (RPlus ?C) s cp = concat (map (starIter (segmentStep inp) (length s)) (segmentStep inp (s, cp)))"
    unfolding ms.simps(10) f by (simp add: segmentStep_def)
  moreover have "ms inp (RSeq (RPlus ?C) REmpty) s cp = ms inp (RPlus ?C) s cp"
    unfolding ms.simps(7) ms.simps(1) by (rule concat_map_single)
  ultimately show ?thesis
    unfolding segmentRx_def ms.simps(12) by simp
qed

lemma ms_segment:
  assumes "st' \<in> set (ms inp (segmentRx k) s cp)"
  shows "\<exists>v. s = v @ fst st' \<and> v \<noteq> [] \<and> CHR ''/'' \<notin> set v \<and> snd st' = cp(k \<mapsto> v)"
proof -
  from assms obtain st1 st2 where
    st1: "st1 \<in> set (segmentStep inp (s, cp))"
    and it: "st2 \<in> set (starIter (segmentStep inp) (length s) st1)"
    and st': "st' = (fst st2, (snd st2)(k \<mapsto> take (length s - length (fst st2)) s))"
    unfolding ms_segmentRx_eq by auto
  from segmentStep_result [OF st1] obtain c where
    c: "c \<noteq> CHR ''/''" "s = c # fst st1" "snd st1 = cp" by auto
  from starIter_segment [OF it] obtain v where
    v: "fst st1 = v @ fst st2" "CHR ''/'' \<notin> set v" "snd st2 = snd st1" by blast
  have s: "s = (c # v) @ fst st2" using c v by simp
  then have "length s - length (fst st2) = length (c # v)" by simp
  then have t: "take (length s - length (fst st2)) s = c # v" using s by simp
  have 1: "s = (c # v) @ fst st'" using s st' by simp
  have 2: "CHR ''/'' \<notin> set (c # v)" using c v by simp
  have 3: "snd st' = cp(k \<mapsto> c # v)" using st' t v c by simp
  from 1 2 3 show ?thesis by blast
qed

lemma mkSeq_Cons: "mkSeq (a # rs) = RSeq a (mkSeq rs)"
  by (simp add: mkSeq_def)

lemma ms_template:
  "st' \<in> set (ms inp (mkSeq (templateRx k ps @ [REol])) s cp) \<Longrightarrow>
   fst st' = [] \<and> s = fill ps k (snd st') \<and> (\<forall>j<k. snd st' j = cp j)
   \<and> (\<forall>j. k \<le> j \<and> j < k + tokenCount ps \<longrightarrow> (\<exists>v. snd st' j = Some v \<and> v \<noteq> [] \<and> CHR ''/'' \<notin> set v))"
proof (induction ps arbitrary: k s cp)
  case Nil
  then show ?case by (auto simp: mkSeq_def split: if_splits)
next
  case (Cons p ps)
  show ?case
  proof (cases p)
    case (Lit c)
    with Cons.prems obtain s1 where s: "s = c # s1"
      and st: "st' \<in> set (ms inp (mkSeq (templateRx k ps @ [REol])) s1 cp)"
      by (auto simp: mkSeq_Cons split: list.splits if_splits)
    from Cons.IH [OF st] s Lit show ?thesis by simp
  next
    case (Token t)
    with Cons.prems obtain st1 where st1: "st1 \<in> set (ms inp (segmentRx k) s cp)"
      and st: "st' \<in> set (ms inp (mkSeq (templateRx (Suc k) ps @ [REol])) (fst st1) (snd st1))"
      by (auto simp: mkSeq_Cons)
    from ms_segment [OF st1] obtain v where
      v: "s = v @ fst st1" "v \<noteq> []" "CHR ''/'' \<notin> set v" "snd st1 = cp(k \<mapsto> v)" by blast
    from Cons.IH [OF st] have
      a: "fst st' = []" and b: "fst st1 = fill ps (Suc k) (snd st')"
      and c: "\<forall>j<Suc k. snd st' j = snd st1 j"
      and d: "\<forall>j. Suc k \<le> j \<and> j < Suc k + tokenCount ps \<longrightarrow> (\<exists>v. snd st' j = Some v \<and> v \<noteq> [] \<and> CHR ''/'' \<notin> set v)"
      by simp_all
    have k: "snd st' k = Some v" using c v by simp
    have "s = fill (p # ps) k (snd st')" using Token v b k by simp
    moreover have "\<forall>j<k. snd st' j = cp j" using c v by simp
    moreover have "\<forall>j. k \<le> j \<and> j < k + tokenCount (p # ps) \<longrightarrow> (\<exists>v. snd st' j = Some v \<and> v \<noteq> [] \<and> CHR ''/'' \<notin> set v)"
    proof (intro allI impI)
      fix j assume j: "k \<le> j \<and> j < k + tokenCount (p # ps)"
      show "\<exists>v. snd st' j = Some v \<and> v \<noteq> [] \<and> CHR ''/'' \<notin> set v"
      proof (cases "j = k")
        case True
        then show ?thesis using k v by simp
      next
        case False
        then have "Suc k \<le> j \<and> j < Suc k + tokenCount ps" using j Token by simp
        then show ?thesis using d by blast
      qed
    qed
    ultimately show ?thesis using a by simp
  qed
qed

lemma execFrom_bol_short:
  "length s < length inp \<Longrightarrow> execFrom inp (RSeq RBol r) s = None"
  by (induction s) auto

lemma stringMatch_bol:
  "stringMatch inp (RSeq RBol r) = (case ms inp r inp Map.empty of [] \<Rightarrow> None | st # _ \<Rightarrow> Some (snd st))"
  by (cases inp) (auto simp: stringMatch_def execFrom_bol_short split: list.splits)

lemma stringMatch_template:
  assumes "stringMatch p (templatePattern ps) = Some cp"
  shows "p = fill ps 0 cp
       \<and> (\<forall>j < tokenCount ps. \<exists>v. cp j = Some v \<and> v \<noteq> [] \<and> CHR ''/'' \<notin> set v)"
proof -
  have pat: "templatePattern ps = RSeq RBol (mkSeq (templateRx 0 ps @ [REol]))"
    by (simp add: templatePattern_def mkSeq_Cons)
  from assms obtain st rest where
    st: "ms p (mkSeq (templateRx 0 ps @ [REol])) p Map.empty = st # rest" and cp: "cp = snd st"
    by (auto simp: pat stringMatch_bol split: list.splits)
  then have "st \<in> set (ms p (mkSeq (templateRx 0 ps @ [REol])) p Map.empty)" by simp
  from ms_template [OF this] cp show ?thesis by simp
qed

lemma pieces_prefix: "CHR '':'' \<notin> set a \<Longrightarrow> pieces (a @ b) = map Lit a @ pieces b"
  by (induction a) auto

lemma indexOf_None: "(indexOf s c = None) = (c \<notin> set s)"
  by (induction s) auto

lemma indexOf_take: "indexOf s c = Some i \<Longrightarrow> take i s = takeWhile (\<lambda>x. x \<noteq> c) s"
  by (induction s arbitrary: i) (auto split: if_splits)

lemma literalPrefix_split: "\<exists>rest. p = literalPrefix p @ rest \<and> CHR '':'' \<notin> set (literalPrefix p)"
proof (cases "indexOf p CHR '':''")
  case None
  then show ?thesis by (simp add: literalPrefix_def)
next
  case (Some i)
  then have "literalPrefix p = takeWhile (\<lambda>x. x \<noteq> CHR '':'') p"
    by (simp add: literalPrefix_def indexOf_take)
  moreover have "p = takeWhile (\<lambda>x. x \<noteq> CHR '':'') p @ dropWhile (\<lambda>x. x \<noteq> CHR '':'') p" by simp
  moreover have "CHR '':'' \<notin> set (takeWhile (\<lambda>x. x \<noteq> CHR '':'') p)"
    by (auto dest: set_takeWhileD)
  ultimately show ?thesis by metis
qed

lemma getRouteCode_plain:
  assumes "plainRoute X r"
  shows "getRouteCode X r =
           Inr \<lparr>compiledConfig = r,
                compiledMethod = toLowerCase (httpMethod r),
                compiledMatcher =
                  (if parsedParameters (parseRouteControllerAction X r) \<noteq> []
                   then PrefixRegexMatch (literalPrefix (getFullPath X r)) (templatePattern (pieces (getFullPath X r)))
                   else ExactMatch (getFullPath X r)),
                compiledParsed = parseRouteControllerAction X r\<rparr>"
proof -
  have "regex (parseRouteControllerAction X r) = renderDefault (pieces (getFullPath X r))"
    using assms
    by (simp add: parseRouteControllerAction_def parseRoutePathToRegex_def Let_def plainRoute_def
        replaceTokens_default)
  moreover have "newRegExp (''^'' @ renderDefault (pieces (getFullPath X r)) @ ''$'')
                 = Inr (templatePattern (pieces (getFullPath X r)))"
    using assms by (intro newRegExp_template) (simp add: plainRoute_def)
  ultimately show ?thesis by (simp add: getRouteCode_def Let_def)
qed

text \<open>
  Reading the pattern source \<open>^\<close>, prefix, expression: the literal prefix is read
  character by character, what follows it starts with \<open>:\<close> or \<open>(\<close>, and from there on
  the beginning of the pattern stays at the bottom of the outermost frame.
\<close>

lemma bottomKeeps_mode:
  "bottomKeeps base (PState fs n l md) \<Longrightarrow> bottomKeeps base (PState fs n' l' md')"
  by (simp add: bottomKeeps_def)

lemma bottomKeeps_pushAtom:
  "bottomKeeps base (PState fs n l md) \<Longrightarrow> pushAtom a fs n' = Inr st' \<Longrightarrow> bottomKeeps base st'"
  by (cases fs; cases "hd fs") (auto simp: bottomKeeps_def pushAtom_def split: frame.splits)

lemma bottomKeeps_pushAssertion:
  "bottomKeeps base (PState fs n l md) \<Longrightarrow> pushAssertion a fs n' = Inr st' \<Longrightarrow> bottomKeeps base st'"
  by (cases fs; cases "hd fs") (auto simp: bottomKeeps_def pushAssertion_def split: frame.splits)

lemma bottomKeeps_quantify:
  "bottomKeeps base (PState fs n l md) \<Longrightarrow> quantify q c fs n' l = Inr st' \<Longrightarrow> bottomKeeps base st'"
proof -
  assume k: "bottomKeeps base (PState fs n l md)" and q: "quantify q c fs n' l = Inr st'"
  from q obtain alts a cur kk rest where
    fs: "fs = Frame alts (a # cur) kk # rest"
    and st': "st' = PState (Frame alts (q a # cur) kk # rest) n' LQuant PNormal"
    by (auto simp: quantify_def split: plast.splits list.splits frame.splits if_splits)
  show ?thesis
  proof (cases rest)
    case Nil
    with k fs have "alts \<noteq> [] \<or> (\<exists>X. a # cur = X @ base \<and> X \<noteq> [])"
      by (auto simp: bottomKeeps_def split: frame.splits)
    then have "alts \<noteq> [] \<or> (\<exists>X. q a # cur = X @ base \<and> X \<noteq> [])"
    proof
      assume "alts \<noteq> []" then show ?thesis by simp
    next
      assume "\<exists>X. a # cur = X @ base \<and> X \<noteq> []"
      then obtain X where X: "a # cur = X @ base" "X \<noteq> []" by blast
      then obtain X0 where "X = a # X0" by (cases X) auto
      with X have "q a # cur = (q a # X0) @ base" by simp
      then show ?thesis by blast
    qed
    with Nil st' show ?thesis by (auto simp: bottomKeeps_def split: frame.splits)
  next
    case (Cons f fs')
    with k fs st' show ?thesis by (auto simp: bottomKeeps_def split: frame.splits)
  qed
qed

lemma bottomKeeps_parseNormal:
  assumes k: "bottomKeeps base (PState fs n l PNormal)" and p: "parseNormal fs n l c = Inr st'"
  shows "bottomKeeps base st'"
proof -
  consider (lpar) "c = CHR ''(''" | (rpar) "c = CHR '')''" | (bar) "c = CHR ''|''"
    | (bol) "c = CHR ''^''" | (eol) "c = CHR ''$''" | (dot) "c = CHR ''.''"
    | (star) "c = CHR ''*''" | (plus) "c = CHR ''+''" | (opt) "c = CHR ''?''"
    | (cls) "c = CHR ''[''" | (esc) "c = CHR 0x5C"
    | (other) "c \<noteq> CHR ''(''" "c \<noteq> CHR '')''" "c \<noteq> CHR ''|''" "c \<noteq> CHR ''^''" "c \<noteq> CHR ''$''"
        "c \<noteq> CHR ''.''" "c \<noteq> CHR ''*''" "c \<noteq> CHR ''+''" "c \<noteq> CHR ''?''" "c \<noteq> CHR ''[''" "c \<noteq> CHR 0x5C"
    by blast
  then show ?thesis
  proof cases
    case lpar
    with p have "st' = PState (Frame [] [] n # fs) (Suc n) LOpen PNormal" by (simp add: parseNormal_def)
    with k show ?thesis by (auto simp: bottomKeeps_def split: frame.splits)
  next
    case rpar
    with p obtain alts cur kk alts' cur' kk' rest where
      fs: "fs = Frame alts cur kk # Frame alts' cur' kk' # rest"
      and st': "st' = PState (Frame alts' (RGroup kk (closeFrame alts cur) # cur') kk' # rest) n LAtom PNormal"
      by (auto simp: parseNormal_def split: list.splits frame.splits)
    show ?thesis
    proof (cases rest)
      case Nil
      with k fs have "alts' \<noteq> [] \<or> (\<exists>X. cur' = X @ base)" by (auto simp: bottomKeeps_def split: frame.splits)
      then have "alts' \<noteq> [] \<or> (\<exists>X. RGroup kk (closeFrame alts cur) # cur' = X @ base \<and> X \<noteq> [])"
        by (metis append_Cons list.distinct(1))
      with Nil st' show ?thesis by (auto simp: bottomKeeps_def split: frame.splits)
    next
      case (Cons f fs')
      with k fs st' show ?thesis by (auto simp: bottomKeeps_def split: frame.splits)
    qed
  next
    case bar
    with p obtain alts cur kk rest where
      fs: "fs = Frame alts cur kk # rest"
      and st': "st' = PState (Frame (mkSeq (rev cur) # alts) [] kk # rest) n LStart PNormal"
      by (auto simp: parseNormal_def split: list.splits frame.splits)
    with k show ?thesis by (cases rest) (auto simp: bottomKeeps_def split: frame.splits)
  next
    case bol
    with p have "pushAssertion RBol fs n = Inr st'" by (simp add: parseNormal_def)
    with k show ?thesis by (rule bottomKeeps_pushAssertion)
  next
    case eol
    with p have "pushAssertion REol fs n = Inr st'" by (simp add: parseNormal_def)
    with k show ?thesis by (rule bottomKeeps_pushAssertion)
  next
    case dot
    with p have "pushAtom RAny fs n = Inr st'" by (simp add: parseNormal_def)
    with k show ?thesis by (rule bottomKeeps_pushAtom)
  next
    case star
    with p have "quantify RStar c fs n l = Inr st'" by (simp add: parseNormal_def)
    with k show ?thesis by (rule bottomKeeps_quantify)
  next
    case plus
    with p have "quantify RPlus c fs n l = Inr st'" by (simp add: parseNormal_def)
    with k show ?thesis by (rule bottomKeeps_quantify)
  next
    case opt
    with p have "quantify ROpt c fs n l = Inr st'" by (simp add: parseNormal_def)
    with k show ?thesis by (rule bottomKeeps_quantify)
  next
    case cls
    with p have "st' = PState fs n l PClassStart" by (simp add: parseNormal_def)
    with k show ?thesis by (simp add: bottomKeeps_def)
  next
    case esc
    with p have "st' = PState fs n l PEscape" by (simp add: parseNormal_def)
    with k show ?thesis by (simp add: bottomKeeps_def)
  next
    case other
    with p have "pushAtom (RChar c) fs n = Inr st'"
      by (simp add: parseNormal_def split: if_splits)
    with k show ?thesis by (rule bottomKeeps_pushAtom)
  qed
qed

lemma bottomKeeps_parseClass:
  assumes k: "bottomKeeps base (PState fs n l md)" and p: "parseClass fs n neg atoms c = Inr st'"
  shows "bottomKeeps base st'"
proof (cases "c = CHR '']''")
  case True
  with p obtain items where "pushAtom (RClass neg items) fs n = Inr st'"
    by (auto simp: parseClass_def split: sum.splits)
  with k show ?thesis by (rule bottomKeeps_pushAtom)
next
  case False
  with p have "\<exists>md'. st' = PState fs n LAtom md'"
    by (auto simp: parseClass_def split: if_splits)
  with k show ?thesis by (auto simp: bottomKeeps_def split: frame.splits)
qed

lemma bottomKeeps_step:
  assumes k: "bottomKeeps base st" and p: "parseStep st c = Inr st'"
  shows "bottomKeeps base st'"
proof -
  obtain fs n l md where st: "st = PState fs n l md" by (cases st) auto
  show ?thesis
  proof (cases md)
    case PNormal
    with k p st show ?thesis by (auto intro: bottomKeeps_parseNormal)
  next
    case PEscape
    with p st have "(\<exists>a. pushAtom a fs n = Inr st')"
      by (auto simp: parseEscape_def split: option.splits if_splits)
    with k st show ?thesis by (auto intro: bottomKeeps_pushAtom)
  next
    case PClassStart
    show ?thesis
    proof (cases "c = CHR ''^''")
      case True
      with p st PClassStart have "st' = PState fs n l (PClass True [])" by simp
      with k st show ?thesis by (simp add: bottomKeeps_def)
    next
      case False
      with p st PClassStart have "parseClass fs n False [] c = Inr st'" by simp
      with k st show ?thesis by (auto intro: bottomKeeps_parseClass)
    qed
  next
    case (PClass neg atoms)
    with p st have "parseClass fs n neg atoms c = Inr st'" by simp
    with k st show ?thesis by (auto intro: bottomKeeps_parseClass)
  next
    case (PClassEscape neg atoms)
    with p st have "\<exists>md'. st' = PState fs n LAtom md'"
      by (auto simp: parseClassEscape_def split: option.splits if_splits)
    with k st show ?thesis by (auto simp: bottomKeeps_def split: frame.splits)
  qed
qed

lemma bottomKeeps_chars:
  "bottomKeeps base st \<Longrightarrow> parseChars st s = Inr st' \<Longrightarrow> bottomKeeps base st'"
proof (induction s arbitrary: st)
  case Nil
  then show ?case by simp
next
  case (Cons c s)
  from Cons.prems(2) obtain st1 where a: "parseStep st c = Inr st1" and b: "parseChars st1 s = Inr st'"
    by (auto split: sum.splits)
  from bottomKeeps_step [OF Cons.prems(1) a] b show ?case by (rule Cons.IH)
qed

lemma parse_plain_chars:
  "\<forall>c \<in> set s. \<not> isSyntaxChar c \<Longrightarrow>
   parseChars (PState (Frame alts cur k # fs) n l PNormal) (s @ rest)
   = parseChars (PState (Frame alts (rev (map RChar s) @ cur) k # fs) n (if s = [] then l else LAtom) PNormal) rest"
proof (induction s arbitrary: cur l)
  case Nil
  then show ?case by simp
next
  case (Cons c s)
  then have c: "\<not> isSyntaxChar c" and s: "\<forall>c \<in> set s. \<not> isSyntaxChar c" by simp_all
  have "parseChars (PState (Frame alts cur k # fs) n l PNormal) ((c # s) @ rest)
        = parseChars (PState (Frame alts (RChar c # cur) k # fs) n LAtom PNormal) (s @ rest)"
    using parse_plain_char [OF c] by simp
  also have "\<dots> = parseChars (PState (Frame alts (rev (map RChar s) @ RChar c # cur) k # fs) n
                       (if s = [] then LAtom else LAtom) PNormal) rest"
    by (rule Cons.IH [OF s])
  finally show ?case by simp
qed

lemma tokenPattern_paren: "\<exists>t. tokenPattern r n = CHR ''('' # t"
  by (auto simp: tokenPattern_def split: option.splits)

lemma regex_after_prefix:
  assumes "indexOf p CHR '':'' \<noteq> None"
  shows "\<exists>c t. replaceTokens (tokenPattern r) p = literalPrefix p @ c # t \<and> (c = CHR '':'' \<or> c = CHR ''('')"
proof -
  from assms obtain i where i: "indexOf p CHR '':'' = Some i" by auto
  let ?a = "takeWhile (\<lambda>x. x \<noteq> CHR '':'') p" and ?b = "dropWhile (\<lambda>x. x \<noteq> CHR '':'') p"
  have pre: "literalPrefix p = ?a" using i by (simp add: literalPrefix_def indexOf_take)
  have "CHR '':'' \<in> set p" using assms by (simp add: indexOf_None)
  then have "?b \<noteq> []" by (simp add: dropWhile_eq_Nil_conv) 
  moreover from this have "hd ?b = CHR '':''"
    using hd_dropWhile [of "\<lambda>x. x \<noteq> CHR '':''" p] by simp
  ultimately obtain t where b: "?b = CHR '':'' # t"
    by (cases ?b) auto
  have na: "CHR '':'' \<notin> set ?a" by (auto dest: set_takeWhileD)
  have "pieces p = pieces (?a @ ?b)" by simp
  also have "\<dots> = map Lit ?a @ pieces (CHR '':'' # t)" using pieces_prefix [OF na] b by simp
  finally have pc: "pieces p = map Lit ?a @ pieces (CHR '':'' # t)" .
  have lit: "concat (map (\<lambda>p. case p of Lit c \<Rightarrow> [c] | Token n \<Rightarrow> tokenPattern r n) (map Lit ?a)) = ?a"
    by (induction ?a) (auto simp: comp_def)
  have "\<exists>c u. concat (map (\<lambda>p. case p of Lit c \<Rightarrow> [c] | Token n \<Rightarrow> tokenPattern r n) (pieces (CHR '':'' # t))) = c # u
              \<and> (c = CHR '':'' \<or> c = CHR ''('')"
    using tokenPattern_paren [of r "takeWhile isWordChar t"] by auto
  then obtain c u where
    "concat (map (\<lambda>p. case p of Lit c \<Rightarrow> [c] | Token n \<Rightarrow> tokenPattern r n) (pieces (CHR '':'' # t))) = c # u"
    "c = CHR '':'' \<or> c = CHR ''(''" by blast
  then have "replaceTokens (tokenPattern r) p = ?a @ c # u"
    unfolding replaceTokens_def pc using lit by simp
  with pre \<open>c = CHR '':'' \<or> c = CHR ''(''\<close> show ?thesis by auto
qed

lemma mkAlt_two: "2 \<le> length xs \<Longrightarrow> \<exists>a b. mkAlt xs = RAlt a b"
  by (cases xs rule: mkAlt.cases) auto

lemma pattern_shape:
  assumes plain: "\<forall>c \<in> set prefix. \<not> isSyntaxChar c"
      and c: "c = CHR '':'' \<or> c = CHR ''(''"
      and re: "newRegExp (''^'' @ (prefix @ c # t) @ ''$'') = Inr re"
  shows "(\<exists>a b. re = RAlt a b) \<or> (\<exists>Y. re = mkSeq (RBol # map RChar prefix @ Y))"
proof -
  let ?base = "rev (map RChar prefix) @ [RBol]"
  let ?S0 = "PState [Frame [] ?base 0] 0 (if prefix = [] then LAssert else LAtom) PNormal"
  have "parseChars (PState [Frame [] [] 0] 0 LStart PNormal) (''^'' @ (prefix @ c # t) @ ''$'')
        = parseChars (PState [Frame [] [RBol] 0] 0 LAssert PNormal) (prefix @ (c # t @ ''$''))"
    by (simp add: parseNormal_def pushAssertion_def)
  also have "\<dots> = parseChars ?S0 (c # t @ ''$'')"
    by (rule parse_plain_chars [OF plain])
  finally have all: "parseChars (PState [Frame [] [] 0] 0 LStart PNormal) (''^'' @ (prefix @ c # t) @ ''$'')
                     = parseChars ?S0 (c # t @ ''$'')" .
  from re obtain fin where fin: "parseChars ?S0 (c # t @ ''$'') = Inr fin" and pf: "parseFinish fin = Inr re"
    unfolding newRegExp_def all by (auto split: sum.splits)
  from fin obtain S1 where s1: "parseStep ?S0 c = Inr S1" and rest: "parseChars S1 (t @ ''$'') = Inr fin"
    by (auto split: sum.splits)
  have "bottomKeeps ?base S1"
    using c s1 by (auto simp: parseNormal_def pushAtom_def bottomKeeps_def split: if_splits)
  from bottomKeeps_chars [OF this rest] have k: "bottomKeeps ?base fin" .
  from pf obtain alts cur kk n l where f: "fin = PState [Frame alts cur kk] n l PNormal"
    and r: "re = closeFrame alts cur"
    by (auto simp: parseFinish_def split: pstate.splits list.splits frame.splits pmode.splits)
  from k f have "alts \<noteq> [] \<or> (\<exists>X. cur = X @ ?base)" by (auto simp: bottomKeeps_def)
  then show ?thesis
  proof
    assume "alts \<noteq> []"
    then have "2 \<le> length (rev (mkSeq (rev cur) # alts))" by (cases alts) auto
    from mkAlt_two [OF this] r show ?thesis by (simp add: closeFrame_def)
  next
    assume "\<exists>X. cur = X @ ?base"
    then obtain X where X: "cur = X @ ?base" by blast
    show ?thesis
    proof (cases alts)
      case Nil
      then have "re = mkSeq (RBol # map RChar prefix @ rev X)"
        using r X by (simp add: closeFrame_def rev_map)
      then show ?thesis by blast
    next
      case (Cons a as)
      then have "2 \<le> length (rev (mkSeq (rev cur) # alts))" by simp
      from mkAlt_two [OF this] r show ?thesis by (simp add: closeFrame_def)
    qed
  qed
qed

lemma ms_literal_prefix:
  "ms inp (mkSeq (map RChar a @ Y)) s cp \<noteq> [] \<Longrightarrow> startsWith s a"
proof (induction a arbitrary: s)
  case Nil
  then show ?case by (simp add: startsWith_def)
next
  case (Cons c a)
  from Cons.prems obtain s1 where s: "s = c # s1" and m: "ms inp (mkSeq (map RChar a @ Y)) s1 cp \<noteq> []"
    by (auto simp: mkSeq_Cons split: list.splits if_splits)
  from Cons.IH [OF m] s show ?case by (simp add: startsWith_def)
qed

lemma stringMatch_literal_prefix:
  assumes "stringMatch p (mkSeq (RBol # map RChar a @ Y)) \<noteq> None"
  shows "startsWith p a"
proof -
  from assms have "ms p (mkSeq (map RChar a @ Y)) p Map.empty \<noteq> []"
    by (auto simp: mkSeq_Cons stringMatch_bol split: list.splits)
  then show ?thesis by (rule ms_literal_prefix)
qed

text \<open>
  C8 (as the code has it). For a route whose template has no syntax character of a
  regular expression before its first \<open>:\<close>, and whose pattern is not an alternation
  at its top level, the prefix test changes nothing: the generated condition has the
  value of the pattern match alone, and every path the pattern matches starts with
  the prefix.
\<close>

theorem prefix_reject_is_shortcut:
  assumes plain: "\<forall>ch \<in> set (literalPrefix (getFullPath X r)). \<not> isSyntaxChar ch"
      and code: "getRouteCode X r = Inr c"
      and mt: "compiledMatcher c = PrefixRegexMatch prefix re"
      and single: "\<forall>a b. re \<noteq> RAlt a b"
  shows "runMatcher (compiledMatcher c) p = stringMatch p re
       \<and> (stringMatch p re \<noteq> None \<longrightarrow> startsWith p prefix)"
proof -
  let ?full = "getFullPath X r"
  from code mt have prefix: "prefix = literalPrefix ?full"
    and re: "newRegExp (''^'' @ regex (parseRouteControllerAction X r) @ ''$'') = Inr re"
    by (auto simp: getRouteCode_def Let_def split: sum.splits if_splits)
  have rx: "regex (parseRouteControllerAction X r) = replaceTokens (tokenPattern r) ?full"
    by (simp add: parseRouteControllerAction_def parseRoutePathToRegex_def Let_def)
  have "startsWith p prefix" if m: "stringMatch p re \<noteq> None"
  proof (cases "indexOf ?full CHR '':''")
    case None
    then show ?thesis using prefix by (simp add: literalPrefix_def startsWith_def)
  next
    case (Some i)
    then have "indexOf ?full CHR '':'' \<noteq> None" by simp
    from regex_after_prefix [OF this, of r] obtain ch t where
      split: "replaceTokens (tokenPattern r) ?full = literalPrefix ?full @ ch # t"
      and ch: "ch = CHR '':'' \<or> ch = CHR ''(''" by blast
    from pattern_shape [OF plain ch re [unfolded rx split]] single
    obtain Y where "re = mkSeq (RBol # map RChar (literalPrefix ?full) @ Y)" by blast
    with m prefix show ?thesis by (auto intro: stringMatch_literal_prefix)
  qed
  then show ?thesis using mt by (cases "stringMatch p re") (auto simp: runMatcher_def)
qed

text \<open>
  C8 as stated fails: the template \<open>/a.b/:id\<close> compiles to the pattern
  \<open>^/a.b/([^/]+)$\<close>, whose \<open>.\<close> matches any character, and to the prefix
  \<open>/a.b/\<close>, compared literally. The path \<open>/axb/5\<close> is matched by the pattern and
  rejected by the prefix test.
\<close>

theorem prefix_reject_counterexample:
  "(case getRouteCode exampleExternals (exampleRoute ''file'' ''/a.b/:id'' [exampleProperty ''id'' ''any'']) of
      Inr c \<Rightarrow>
        (case compiledMatcher c of
           PrefixRegexMatch prefix re \<Rightarrow>
             prefix = ''/a.b/'' \<and> stringMatch ''/axb/5'' re \<noteq> None
             \<and> runMatcher (compiledMatcher c) ''/axb/5'' = None
         | ExactMatch full \<Rightarrow> False)
    | Inl e \<Rightarrow> False)"
  by (simp add: example_simps dispatch_simps regex_simps)

theorem prefix_reject_is_shortcut_witness:
  "(case getRouteCode exampleExternals
           ((exampleRoute ''user'' ''/users/:id'' [exampleProperty ''id'' ''any''])
              \<lparr>parameterRegularExpressions := [''id'' \<mapsto> ''[0-9]+'']\<rparr>) of
      Inr c \<Rightarrow>
        (case compiledMatcher c of
           PrefixRegexMatch prefix re \<Rightarrow>
             runMatcher (compiledMatcher c) ''/users/42'' = stringMatch ''/users/42'' re
             \<and> stringMatch ''/users/42'' re \<noteq> None \<and> startsWith ''/users/42'' prefix
         | ExactMatch full \<Rightarrow> False)
    | Inl e \<Rightarrow> False)"
proof -
  let ?r = "(exampleRoute ''user'' ''/users/:id'' [exampleProperty ''id'' ''any''])
              \<lparr>parameterRegularExpressions := [''id'' \<mapsto> ''[0-9]+'']\<rparr>"
  have plain: "\<forall>ch \<in> set (literalPrefix (getFullPath exampleExternals ?r)). \<not> isSyntaxChar ch"
    by (simp add: example_simps dispatch_simps isSyntaxChar_def)
  obtain c where code: "getRouteCode exampleExternals ?r = Inr c"
    by (simp add: example_simps dispatch_simps regex_simps)
  obtain prefix re where mt: "compiledMatcher c = PrefixRegexMatch prefix re"
    using code by (auto simp: example_simps dispatch_simps regex_simps)
  have single: "\<forall>a b. re \<noteq> RAlt a b"
    using code mt by (auto simp: example_simps dispatch_simps regex_simps)
  have m: "stringMatch ''/users/42'' re \<noteq> None"
    using code mt by (auto simp: example_simps dispatch_simps regex_simps)
  from prefix_reject_is_shortcut [OF plain code mt single, of "''/users/42''"] m
  show ?thesis using code mt by simp
qed

subsection \<open>Exact and pattern matchers\<close>

lemma templateRx_literals: "templateRx k (map Lit s) = map RChar s"
  by (induction s) auto

lemma ms_literal: "ms inp (mkSeq (map RChar s @ [REol])) s cp = [([], cp)]"
  by (induction s) (auto simp: mkSeq_def)

lemma stringMatch_literal: "stringMatch s (templatePattern (map Lit s)) = Some Map.empty"
  by (simp add: templatePattern_def mkSeq_Cons stringMatch_bol templateRx_literals ms_literal)

lemma pieces_tokenfree: "tokenNames p = [] \<Longrightarrow> pieces p = map Lit p"
  unfolding tokenNames_def
  by (induction p rule: pieces.induct) (auto split: if_splits)

lemma fill_literal: "fill (map Lit s) k cp = s"
  by (induction s) auto

lemma stringMatch_tokenfree:
  "(stringMatch p (templatePattern (map Lit s)) \<noteq> None) = (p = s)"
proof
  assume "stringMatch p (templatePattern (map Lit s)) \<noteq> None"
  then obtain cp where "stringMatch p (templatePattern (map Lit s)) = Some cp" by auto
  from stringMatch_template [OF this] show "p = s" by (simp add: fill_literal)
next
  assume "p = s"
  then show "stringMatch p (templatePattern (map Lit s)) \<noteq> None" by (simp add: stringMatch_literal)
qed

lemma literalPrefix_tokenfree_starts: "startsWith p (literalPrefix p)"
  using literalPrefix_split [of p] by (metis append_eq_conv_conj startsWith_def)

text \<open>
  C3 (as the code has it). Whether a route is compared exactly depends on the handler,
  not on the template: with no handler parameters the matcher is the comparison with
  the full path (tokens or not); with handler parameters it is the prefix test and
  the pattern. A route without handler parameters, and a route whose template has
  neither tokens nor syntax characters of a regular expression, matches a request
  exactly when the request's path is the full path and the methods agree in lower
  case.
\<close>

theorem matcher_by_handler_parameters:
  assumes code: "getRouteCode X r = Inr c"
  shows "(methodProperties r = [] \<longrightarrow> compiledMatcher c = ExactMatch (getFullPath X r))
       \<and> (methodProperties r \<noteq> [] \<longrightarrow>
            (\<exists>re. compiledMatcher c = PrefixRegexMatch (literalPrefix (getFullPath X r)) re))
       \<and> (methodProperties r = []
            \<or> (tokenNames (getFullPath X r) = [] \<and> plainPieces (pieces (getFullPath X r))) \<longrightarrow>
            routeMatches X r request
            = (requestPath (getUrl request) = getFullPath X r
               \<and> toLowerCase (getMethod request) = toLowerCase (httpMethod r)))"
proof -
  let ?full = "getFullPath X r" and ?p = "requestPath (getUrl request)"
  have m: "compiledMethod c = toLowerCase (httpMethod r)"
    using code by (rule getRouteCode_method)
  have exact: "compiledMatcher c = ExactMatch ?full" if "methodProperties r = []"
    using code that by (auto simp: getRouteCode_def Let_def parsedParameters_empty split: sum.splits)
  have rx: "\<exists>re. compiledMatcher c = PrefixRegexMatch (literalPrefix ?full) re" if "methodProperties r \<noteq> []"
    using code that by (auto simp: getRouteCode_def Let_def parsedParameters_empty split: sum.splits)
  have a: "routeMatches X r request = (?p = ?full \<and> toLowerCase (getMethod request) = toLowerCase (httpMethod r))"
    if "methodProperties r = []"
    using code exact [OF that] m by (auto simp: routeMatches_def runMatcher_def)
  have b: "routeMatches X r request = (?p = ?full \<and> toLowerCase (getMethod request) = toLowerCase (httpMethod r))"
    if tf: "tokenNames ?full = []" and pl: "plainPieces (pieces ?full)" and ne: "methodProperties r \<noteq> []"
  proof -
    have "plainRoute X r" using tf pl by (simp add: plainRoute_def)
    from getRouteCode_plain [OF this] code ne
    have mt: "compiledMatcher c = PrefixRegexMatch (literalPrefix ?full) (templatePattern (pieces ?full))"
      by (auto simp: parsedParameters_empty)
    have "(runMatcher (compiledMatcher c) ?p \<noteq> None) = (?p = ?full)"
      using mt pieces_tokenfree [OF tf] stringMatch_tokenfree [of ?p ?full]
        literalPrefix_tokenfree_starts [of ?full]
      by (auto simp: runMatcher_def)
    then show ?thesis using code m by (auto simp: routeMatches_def)
  qed
  show ?thesis using exact rx a b by blast
qed

text \<open>
  C3 as stated fails: the template \<open>/a.b\<close> has no token, its handler takes an injected
  service, so the route is matched by the pattern \<open>^/a.b$\<close>, and the request \<open>/axb\<close>
  matches it although its path is not the route's.
\<close>

theorem token_free_regex_counterexample:
  "tokenNames (getFullPath exampleExternals (exampleRoute ''file'' ''/a.b'' [exampleProperty ''logger'' ''class''])) = []
   \<and> (case getRouteCode exampleExternals (exampleRoute ''file'' ''/a.b'' [exampleProperty ''logger'' ''class'']) of
        Inr c \<Rightarrow> (case compiledMatcher c of PrefixRegexMatch prefix re \<Rightarrow> prefix = [] | ExactMatch full \<Rightarrow> False)
      | Inl e \<Rightarrow> False)
   \<and> routeMatches exampleExternals (exampleRoute ''file'' ''/a.b'' [exampleProperty ''logger'' ''class''])
        \<lparr>getMethod = ''GET'', getUrl = ''/axb'', requestBody = None\<rparr>
   \<and> requestPath ''/axb'' \<noteq> getFullPath exampleExternals (exampleRoute ''file'' ''/a.b'' [exampleProperty ''logger'' ''class''])"
  by (simp add: example_simps dispatch_simps regex_simps)

theorem matcher_by_handler_parameters_witness:
  "routeMatches exampleExternals (exampleRoute ''list'' ''/items'' [exampleProperty ''logger'' ''class''])
        \<lparr>getMethod = ''get'', getUrl = ''/items?page=2'', requestBody = None\<rparr>
   \<and> \<not> routeMatches exampleExternals (exampleRoute ''list'' ''/items'' [exampleProperty ''logger'' ''class''])
        \<lparr>getMethod = ''get'', getUrl = ''/items/'', requestBody = None\<rparr>
   \<and> routeMatches exampleExternals (exampleRoute ''raw'' ''/raw/:id'' [])
        \<lparr>getMethod = ''GeT'', getUrl = ''/raw/:id'', requestBody = None\<rparr>"
proof -
  let ?r = "exampleRoute ''list'' ''/items'' [exampleProperty ''logger'' ''class'']"
  let ?s = "exampleRoute ''raw'' ''/raw/:id'' []"
  obtain c where c: "getRouteCode exampleExternals ?r = Inr c"
    by (simp add: example_simps dispatch_simps regex_simps)
  obtain d where d: "getRouteCode exampleExternals ?s = Inr d"
    by (simp add: example_simps dispatch_simps regex_simps)
  have tf: "tokenNames (getFullPath exampleExternals ?r) = [] \<and> plainPieces (pieces (getFullPath exampleExternals ?r))"
    by (simp add: example_simps plainPieces_def isSyntaxChar_def)
  have np: "methodProperties ?s = []" by (simp add: exampleRoute_def)
  note t1 = matcher_by_handler_parameters [OF c, of "\<lparr>getMethod = ''get'', getUrl = ''/items?page=2'', requestBody = None\<rparr>"]
  note t2 = matcher_by_handler_parameters [OF c, of "\<lparr>getMethod = ''get'', getUrl = ''/items/'', requestBody = None\<rparr>"]
  note t3 = matcher_by_handler_parameters [OF d, of "\<lparr>getMethod = ''GeT'', getUrl = ''/raw/:id'', requestBody = None\<rparr>"]
  have 1: "routeMatches exampleExternals ?r \<lparr>getMethod = ''get'', getUrl = ''/items?page=2'', requestBody = None\<rparr>"
    using t1 tf by (simp add: example_simps dispatch_simps)
  have 2: "\<not> routeMatches exampleExternals ?r \<lparr>getMethod = ''get'', getUrl = ''/items/'', requestBody = None\<rparr>"
    using t2 tf by (simp add: example_simps dispatch_simps)
  have 3: "routeMatches exampleExternals ?s \<lparr>getMethod = ''GeT'', getUrl = ''/raw/:id'', requestBody = None\<rparr>"
    using t3 np by (simp add: example_simps dispatch_simps)
  show ?thesis using 1 2 3 by simp
qed

subsection \<open>Compiling templates\<close>

lemma assignIndices_last:
  "k < length ns \<Longrightarrow> ns ! k = n \<Longrightarrow> (\<forall>j. k < j \<and> j < length ns \<longrightarrow> ns ! j \<noteq> n) \<Longrightarrow>
   assignIndices ns i m n = Some (i + k)"
proof (induction ns arbitrary: i m k)
  case Nil
  then show ?case by simp
next
  case (Cons x ns)
  show ?case
  proof (cases k)
    case 0
    have "n \<notin> set ns"
    proof
      assume "n \<in> set ns"
      then obtain j where "j < length ns" "ns ! j = n" by (auto simp: in_set_conv_nth)
      then have "0 < Suc j \<and> Suc j < length (x # ns) \<and> (x # ns) ! Suc j = n" by simp
      with Cons.prems(3) 0 show False by blast
    qed
    then show ?thesis using 0 Cons.prems(2) by (simp add: assignIndices_notin)
  next
    case (Suc k')
    have c: "\<forall>j. k' < j \<and> j < length ns \<longrightarrow> ns ! j \<noteq> n"
    proof (intro allI impI)
      fix j assume "k' < j \<and> j < length ns"
      then have "k < Suc j \<and> Suc j < length (x # ns)" using Suc by simp
      with Cons.prems(3) have "(x # ns) ! Suc j \<noteq> n" by blast
      then show "ns ! j \<noteq> n" by simp
    qed
    from Cons.prems(1,2) Suc have a: "k' < length ns" and b: "ns ! k' = n" by simp_all
    have "assignIndices ns (Suc i) (m(x \<mapsto> i)) n = Some (Suc i + k')"
      by (rule Cons.IH [OF a b c])
    then show ?thesis using Suc by simp
  qed
qed

lemma getRouteCode_pattern:
  "getRouteCode X r = (case newRegExp (patternSource X r) of
                         Inl e \<Rightarrow> Inl e
                       | Inr re \<Rightarrow>
                           Inr \<lparr>compiledConfig = r,
                                compiledMethod = toLowerCase (httpMethod r),
                                compiledMatcher =
                                  (if methodProperties r \<noteq> []
                                   then PrefixRegexMatch (literalPrefix (getFullPath X r)) re
                                   else ExactMatch (getFullPath X r)),
                                compiledParsed = parseRouteControllerAction X r\<rparr>)"
  by (simp add: getRouteCode_def patternSource_def Let_def parsedParameters_empty split: sum.splits)

lemma getRouteCode_Inl: "(getRouteCode X r = Inl e) = (newRegExp (patternSource X r) = Inl e)"
  by (simp add: getRouteCode_pattern split: sum.splits)

lemma getRouteCode_Inr: "(\<exists>c. getRouteCode X r = Inr c) = (\<exists>re. newRegExp (patternSource X r) = Inr re)"
  by (simp add: getRouteCode_pattern split: sum.splits)

lemma compileRoutes_SyntaxError:
  "(compileRoutes X rs = Inl SyntaxError)
   = (\<exists>k<length rs. getRouteCode X (rs ! k) = Inl SyntaxError
        \<and> (\<forall>j<k. \<exists>c. getRouteCode X (rs ! j) = Inr c))"
proof (induction rs)
  case Nil
  then show ?case by simp
next
  case (Cons r rs)
  show ?case
  proof (cases "getRouteCode X r")
    case (Inl e)
    show ?thesis
    proof (cases "e = SyntaxError")
      case True
      with Inl have "compileRoutes X (r # rs) = Inl SyntaxError" by simp
      moreover have "\<exists>k<length (r # rs). getRouteCode X ((r # rs) ! k) = Inl SyntaxError
                       \<and> (\<forall>j<k. \<exists>c. getRouteCode X ((r # rs) ! j) = Inr c)"
        using Inl True by (intro exI [of _ 0]) simp
      ultimately show ?thesis by simp
    next
      case False
      with Inl have l: "compileRoutes X (r # rs) \<noteq> Inl SyntaxError" by simp
      have "\<not> (\<exists>k<length (r # rs). getRouteCode X ((r # rs) ! k) = Inl SyntaxError
                       \<and> (\<forall>j<k. \<exists>c. getRouteCode X ((r # rs) ! j) = Inr c))"
      proof
        assume "\<exists>k<length (r # rs). getRouteCode X ((r # rs) ! k) = Inl SyntaxError
                       \<and> (\<forall>j<k. \<exists>c. getRouteCode X ((r # rs) ! j) = Inr c)"
        then obtain k where k: "getRouteCode X ((r # rs) ! k) = Inl SyntaxError"
          "\<forall>j<k. \<exists>c. getRouteCode X ((r # rs) ! j) = Inr c" by blast
        show False
        proof (cases k)
          case 0
          with k(1) Inl False show False by simp
        next
          case (Suc k')
          with k(2) have "\<exists>c. getRouteCode X ((r # rs) ! 0) = Inr c" by blast
          with Inl show False by simp
        qed
      qed
      with l show ?thesis by simp
    qed
  next
    case (Inr c)
    have "(\<exists>k<length (r # rs). getRouteCode X ((r # rs) ! k) = Inl SyntaxError
              \<and> (\<forall>j<k. \<exists>c. getRouteCode X ((r # rs) ! j) = Inr c))
          = (\<exists>k<length rs. getRouteCode X (rs ! k) = Inl SyntaxError
              \<and> (\<forall>j<k. \<exists>c. getRouteCode X (rs ! j) = Inr c))"
    proof
      assume "\<exists>k<length (r # rs). getRouteCode X ((r # rs) ! k) = Inl SyntaxError
              \<and> (\<forall>j<k. \<exists>c. getRouteCode X ((r # rs) ! j) = Inr c)"
      then obtain k where k: "k < length (r # rs)" "getRouteCode X ((r # rs) ! k) = Inl SyntaxError"
        "\<forall>j<k. \<exists>c. getRouteCode X ((r # rs) ! j) = Inr c" by blast
      from k(2) Inr obtain k' where k': "k = Suc k'" by (cases k) auto
      have "\<forall>j<k'. \<exists>c. getRouteCode X (rs ! j) = Inr c"
      proof (intro allI impI)
        fix j assume "j < k'"
        then have "Suc j < k" using k' by simp
        with k(3) have "\<exists>c. getRouteCode X ((r # rs) ! Suc j) = Inr c" by blast
        then show "\<exists>c. getRouteCode X (rs ! j) = Inr c" by simp
      qed
      with k k' show "\<exists>k<length rs. getRouteCode X (rs ! k) = Inl SyntaxError
              \<and> (\<forall>j<k. \<exists>c. getRouteCode X (rs ! j) = Inr c)"
        by (intro exI [of _ k']) simp
    next
      assume "\<exists>k<length rs. getRouteCode X (rs ! k) = Inl SyntaxError
              \<and> (\<forall>j<k. \<exists>c. getRouteCode X (rs ! j) = Inr c)"
      then obtain k where k: "k < length rs" "getRouteCode X (rs ! k) = Inl SyntaxError"
        "\<forall>j<k. \<exists>c. getRouteCode X (rs ! j) = Inr c" by blast
      have "\<forall>j<Suc k. \<exists>c. getRouteCode X ((r # rs) ! j) = Inr c"
      proof (intro allI impI)
        fix j assume j: "j < Suc k"
        show "\<exists>c. getRouteCode X ((r # rs) ! j) = Inr c"
        proof (cases j)
          case 0
          then show ?thesis using Inr by simp
        next
          case (Suc j')
          with j k(3) show ?thesis by simp
        qed
      qed
      with k show "\<exists>k<length (r # rs). getRouteCode X ((r # rs) ! k) = Inl SyntaxError
              \<and> (\<forall>j<k. \<exists>c. getRouteCode X ((r # rs) ! j) = Inr c)"
        by (intro exI [of _ "Suc k"]) simp
    qed
    moreover have "(compileRoutes X (r # rs) = Inl SyntaxError) = (compileRoutes X rs = Inl SyntaxError)"
      using Inr by (simp split: sum.splits)
    ultimately show ?thesis using Cons.IH by simp
  qed
qed

lemma build_SyntaxError:
  "(build X rs = Inl SyntaxError)
   = (list_all (routeModelled X) rs
      \<and> (\<exists>k<length rs. newRegExp (patternSource X (rs ! k)) = Inl SyntaxError
           \<and> (\<forall>j<k. \<exists>re. newRegExp (patternSource X (rs ! j)) = Inr re)))"
  by (simp add: build_def compileRoutes_SyntaxError getRouteCode_Inl getRouteCode_Inr)

lemma groupsOf_mkSeq: "groupsOf (mkSeq xs) = concat (map groupsOf xs)"
  by (induction xs) (simp_all add: mkSeq_def)

lemma groupsOf_templateRx:
  "concat (map groupsOf (templateRx k ps)) = [k..<k + tokenCount ps]"
proof (induction ps arbitrary: k)
  case Nil
  then show ?case by simp
next
  case (Cons p ps)
  show ?case
  proof (cases p)
    case (Lit c)
    then show ?thesis using Cons.IH by simp
  next
    case (Token n)
    have "[k..<Suc (k + tokenCount ps)] = k # [Suc k..<Suc (k + tokenCount ps)]"
      by (simp add: upt_rec)
    then show ?thesis using Token Cons.IH [of "Suc k"] by (simp add: segmentRx_def)
  qed
qed

lemma groupsOf_templatePattern: "groupsOf (templatePattern ps) = [0..<tokenCount ps]"
  using groupsOf_templateRx [of 0 ps] by (simp add: templatePattern_def groupsOf_mkSeq)

lemma tokenCount_length:
  "tokenCount pcs = length (concat (map (\<lambda>p. case p of Lit c \<Rightarrow> [] | Token n \<Rightarrow> [n]) pcs))"
  by (induction pcs rule: tokenCount.induct) auto

lemma plainRoute_pattern:
  assumes "plainRoute X r"
  shows "newRegExp (patternSource X r) = Inr (templatePattern (pieces (getFullPath X r)))"
proof -
  have "regex (parseRouteControllerAction X r) = renderDefault (pieces (getFullPath X r))"
    using assms
    by (simp add: parseRouteControllerAction_def parseRoutePathToRegex_def Let_def plainRoute_def
        replaceTokens_default)
  moreover have "newRegExp (''^'' @ renderDefault (pieces (getFullPath X r)) @ ''$'')
                 = Inr (templatePattern (pieces (getFullPath X r)))"
    using assms by (intro newRegExp_template) (simp add: plainRoute_def)
  ultimately show ?thesis by (simp add: patternSource_def)
qed

text \<open>
  C4 (as the code has it). Nothing checks a template. \<open>parseRoutePathToRegex\<close> always
  returns: a name is bound to the position of its last occurrence (\<open>__proto__\<close> apart,
  which an object does not take as a key), so a template may repeat a name. A template
  without syntax characters of a regular expression outside its tokens, with the
  default token expression and no token named like a member of \<open>Object.prototype\<close>,
  always compiles, to a pattern with one capture group per occurrence of a token. \<open>addRoute\<close> appends the route and clears
  \<open>fn\<close>; it compiles nothing. For routes whose texts stand for themselves in the
  generated code, the dispatcher fails to build with a \<open>SyntaxError\<close> exactly when
  \<open>new RegExp\<close> rejects the pattern of a route; this happens inside \<open>resolveRequest\<close>,
  which then leaves the router as it was, so that every request fails with the error.
  The URL resolver is compiled on its own, inside \<open>resolveUrl\<close>; there the
  \<open>SyntaxError\<close> is that of a token whose name starts with a digit.
\<close>

theorem template_compilation:
  shows "(\<forall>k n. k < length (tokenNames (getFullPath X r)) \<and> tokenNames (getFullPath X r) ! k = n
               \<and> n \<noteq> ''__proto__''
               \<and> (\<forall>j. k < j \<and> j < length (tokenNames (getFullPath X r)) \<longrightarrow> tokenNames (getFullPath X r) ! j \<noteq> n)
               \<longrightarrow> snd (parseRoutePathToRegex X r) n = Some k)
       \<and> (plainRoute X r \<and> list_all ownName (tokenNames (getFullPath X r)) \<longrightarrow>
            (\<exists>c re. getRouteCode X r = Inr c \<and> newRegExp (patternSource X r) = Inr re
               \<and> groupsOf re = [0..<length (tokenNames (getFullPath X r))]))
       \<and> routes (addRoute r rt) = routes rt @ [r]
       \<and> fn (addRoute r rt) = None
       \<and> resolveFn (addRoute r rt) = resolveFn rt
       \<and> ((build X rs = Inl SyntaxError)
            = (list_all (routeModelled X) rs
               \<and> (\<exists>k<length rs. newRegExp (patternSource X (rs ! k)) = Inl SyntaxError
                    \<and> (\<forall>j<k. \<exists>re. newRegExp (patternSource X (rs ! j)) = Inr re))))
       \<and> (build X (routes rt @ [r]) = Inl SyntaxError \<longrightarrow>
            (\<forall>request. resolveRequest X request (addRoute r rt) = (Inl SyntaxError, addRoute r rt)))
       \<and> ((buildUrlResolver X rs = Inl SyntaxError)
            = (list_all (urlCodeModelled X) rs \<and> list_ex (digitToken X) rs))
       \<and> (resolveFn rt = None \<and> buildUrlResolver X (routes rt) = Inl SyntaxError \<longrightarrow>
            (\<forall>n ps. resolveUrl X n ps rt = (Inl (BuildFailed SyntaxError), rt)))"
proof -
  have 1: "snd (parseRoutePathToRegex X r) n = Some k"
    if "k < length (tokenNames (getFullPath X r))" "tokenNames (getFullPath X r) ! k = n"
       "\<forall>j. k < j \<and> j < length (tokenNames (getFullPath X r)) \<longrightarrow> tokenNames (getFullPath X r) ! j \<noteq> n"
    for k n
    using assignIndices_last [OF that, of 0 Map.empty] by (simp add: parseRoutePathToRegex_def Let_def)
  have 2: "\<exists>c re. getRouteCode X r = Inr c \<and> newRegExp (patternSource X r) = Inr re
               \<and> groupsOf re = [0..<length (tokenNames (getFullPath X r))]" if "plainRoute X r"
  proof -
    from plainRoute_pattern [OF that] have
      p: "newRegExp (patternSource X r) = Inr (templatePattern (pieces (getFullPath X r)))" .
    then obtain c where "getRouteCode X r = Inr c" using getRouteCode_Inr [of X r] by auto
    moreover have "groupsOf (templatePattern (pieces (getFullPath X r)))
                   = [0..<length (tokenNames (getFullPath X r))]"
      by (simp add: groupsOf_templatePattern tokenCount_length tokenNames_def)
    ultimately show ?thesis using p by blast
  qed
  have 3: "resolveRequest X request (addRoute r rt) = (Inl SyntaxError, addRoute r rt)"
    if "build X (routes rt @ [r]) = Inl SyntaxError" for request
    using that by (simp add: resolveRequest_def addRoute_def)
  have 4: "(buildUrlResolver X rs = Inl SyntaxError)
            = (list_all (urlCodeModelled X) rs \<and> list_ex (digitToken X) rs)"
    by (simp add: buildUrlResolver_def)
  have 5: "resolveUrl X n ps rt = (Inl (BuildFailed SyntaxError), rt)"
    if "resolveFn rt = None \<and> buildUrlResolver X (routes rt) = Inl SyntaxError" for n ps
    using that by (simp add: resolveUrl_def)
  show ?thesis
    using 1 2 3 4 5 build_SyntaxError [of X rs] by (simp add: addRoute_fields)
qed

text \<open>
  C4 as stated fails: the template \<open>/:a/:a\<close> compiles to \<open>/([^/]+)/([^/]+)\<close> with \<open>a\<close>
  bound to the second group, the route is built without an error, and \<open>/1/2\<close> is
  dispatched to it with \<open>a = 2\<close>.
\<close>

theorem duplicate_token_compiles_counterexample:
  "parseRoutePathToRegex exampleExternals (exampleRoute ''dup'' ''/:a/:a'' [exampleProperty ''a'' ''any''])
     = (''/([^/]+)/([^/]+)'', [''a'' \<mapsto> 1])
   \<and> (case getRouteCode exampleExternals (exampleRoute ''dup'' ''/:a/:a'' [exampleProperty ''a'' ''any'']) of
        Inr c \<Rightarrow> True | Inl e \<Rightarrow> False)
   \<and> (case resolveRequest exampleExternals \<lparr>getMethod = ''GET'', getUrl = ''/1/2'', requestBody = None\<rparr>
                 (addRoute (exampleRoute ''dup'' ''/:a/:a'' [exampleProperty ''a'' ''any'']) (newRouter [])) of
        (Inr (Some res), rt) \<Rightarrow>
          (case resolvedParameters res of
             Some f \<Rightarrow> f (contextMatch rt) (\<lambda>c. JNull) = Inr [JStr ''2'']
           | None \<Rightarrow> False)
      | _ \<Rightarrow> False)"
  by (simp add: example_simps dispatch_simps regex_simps parameter_simps addRoute_def)

theorem template_compilation_witness:
  "snd (parseRoutePathToRegex exampleExternals (exampleRoute ''pair'' ''/:a/:b/:a'' [])) ''a'' = Some 2
   \<and> (\<exists>c re. getRouteCode exampleExternals (exampleRoute ''pair'' ''/:a/:b/:a'' []) = Inr c
          \<and> newRegExp (patternSource exampleExternals (exampleRoute ''pair'' ''/:a/:b/:a'' [])) = Inr re
          \<and> groupsOf re = [0, 1, 2])
   \<and> build exampleExternals [exampleRoute ''x'' ''/x'' [], exampleRoute ''open'' ''/a('' []] = Inl SyntaxError
   \<and> resolveRequest exampleExternals \<lparr>getMethod = ''GET'', getUrl = ''/x'', requestBody = None\<rparr>
        (addRoute (exampleRoute ''open'' ''/a('' []) (newRouter [exampleRoute ''x'' ''/x'' []]))
      = (Inl SyntaxError, addRoute (exampleRoute ''open'' ''/a('' []) (newRouter [exampleRoute ''x'' ''/x'' []]))
   \<and> resolveUrl exampleExternals ''d'' [] (newRouter [exampleRoute ''d'' ''/a/:1'' []])
      = (Inl (BuildFailed SyntaxError), newRouter [exampleRoute ''d'' ''/a/:1'' []])"
proof -
  let ?X = exampleExternals
  let ?r = "exampleRoute ''pair'' ''/:a/:b/:a'' []"
  let ?x = "exampleRoute ''x'' ''/x'' []"
  let ?s = "exampleRoute ''open'' ''/a('' []"
  let ?d = "exampleRoute ''d'' ''/a/:1'' []"
  let ?rq = "\<lparr>getMethod = ''GET'', getUrl = ''/x'', requestBody = None\<rparr>"
  note t = template_compilation [of ?X ?r "newRouter []" "[?x, ?s]"]
  note u = template_compilation [of ?X ?s "newRouter [?x]" "[?d]"]
  note w = template_compilation [of ?X ?s "newRouter [?d]" "[?d]"]
  have ns: "tokenNames (getFullPath ?X ?r) = [''a'', ''b'', ''a'']"
    by (simp add: example_simps)
  have pl: "plainRoute ?X ?r"
    by (simp add: plainRoute_def plainPieces_def example_simps isSyntaxChar_def)
  have own: "list_all ownName (tokenNames (getFullPath ?X ?r))"
    unfolding ns by (simp add: ownName_def objectPrototypeNames_def)
  have a: "2 < length (tokenNames (getFullPath ?X ?r))
           \<and> tokenNames (getFullPath ?X ?r) ! 2 = ''a''
           \<and> ''a'' \<noteq> ''__proto__''
           \<and> (\<forall>j. 2 < j \<and> j < length (tokenNames (getFullPath ?X ?r))
                  \<longrightarrow> tokenNames (getFullPath ?X ?r) ! j \<noteq> ''a'')"
    unfolding ns by simp
  from t a have 1: "snd (parseRoutePathToRegex ?X ?r) ''a'' = Some 2" by blast
  from t pl own have "\<exists>c re. getRouteCode ?X ?r = Inr c \<and> newRegExp (patternSource ?X ?r) = Inr re
                    \<and> groupsOf re = [0..<length (tokenNames (getFullPath ?X ?r))]" by blast
  then have 2: "\<exists>c re. getRouteCode ?X ?r = Inr c \<and> newRegExp (patternSource ?X ?r) = Inr re
                    \<and> groupsOf re = [0, 1, 2]"
    unfolding ns by (simp add: upt_rec numeral_2_eq_2)
  have good: "\<exists>re. newRegExp (patternSource ?X ?x) = Inr re"
    by (simp add: patternSource_def example_simps regex_simps)
  have bad: "newRegExp (patternSource ?X ?s) = Inl SyntaxError"
    by (simp add: patternSource_def example_simps regex_simps)
  have md: "list_all (routeModelled ?X) [?x, ?s]"
    by (simp add: example_simps dispatch_simps isLineTerminator_def)
  have "\<exists>k<length [?x, ?s]. newRegExp (patternSource ?X ([?x, ?s] ! k)) = Inl SyntaxError
          \<and> (\<forall>j<k. \<exists>re. newRegExp (patternSource ?X ([?x, ?s] ! j)) = Inr re)"
    using good bad by (intro exI [of _ 1]) simp
  with t md have 3: "build ?X [?x, ?s] = Inl SyntaxError" by blast
  then have "build ?X (routes (newRouter [?x]) @ [?s]) = Inl SyntaxError"
    by (simp add: newRouter_def)
  with u have 4: "resolveRequest ?X ?rq (addRoute ?s (newRouter [?x]))
                  = (Inl SyntaxError, addRoute ?s (newRouter [?x]))" by blast
  have "list_all (urlCodeModelled ?X) [?d] \<and> list_ex (digitToken ?X) [?d]"
    by (simp add: example_simps resolver_simps ownName_def objectPrototypeNames_def isDigitChar_def)
  with u have "buildUrlResolver ?X [?d] = Inl SyntaxError" by blast
  then have "resolveFn (newRouter [?d]) = None \<and> buildUrlResolver ?X (routes (newRouter [?d])) = Inl SyntaxError"
    by (simp add: newRouter_def)
  with w have 5: "resolveUrl ?X ''d'' [] (newRouter [?d]) = (Inl (BuildFailed SyntaxError), newRouter [?d])"
    by blast
  show ?thesis using 1 2 3 4 5 by simp
qed

subsection \<open>The query string of a resolved URL\<close>

lemma replaceAllChar_append: "replaceAllChar c r (a @ b) = replaceAllChar c r a @ replaceAllChar c r b"
  by (simp add: replaceAllChar_def)

lemma replaceAllChar_none: "c \<notin> set s \<Longrightarrow> replaceAllChar c r s = s"
  by (induction s) (auto simp: replaceAllChar_def)

lemma replaceAllChar_joined:
  "\<forall>s \<in> set segs. c \<notin> set s \<Longrightarrow> replaceAllChar c r (joinWith [c] segs) = joinWith r segs"
proof (induction segs rule: induct_list012)
  case 1
  then show ?case by (simp add: replaceAllChar_def)
next
  case (2 x)
  then show ?case by (simp add: replaceAllChar_none)
next
  case (3 x y zs)
  have "replaceAllChar c r (joinWith [c] (x # y # zs))
        = replaceAllChar c r x @ replaceAllChar c r [c] @ replaceAllChar c r (joinWith [c] (y # zs))"
    by (simp add: replaceAllChar_def)
  also have "replaceAllChar c r x = x" using 3(3) by (simp add: replaceAllChar_none)
  also have "replaceAllChar c r [c] = r" by (simp add: replaceAllChar_def)
  also have "replaceAllChar c r (joinWith [c] (y # zs)) = joinWith r (y # zs)"
    using 3 by simp
  finally show ?case by simp
qed

lemma replaceFirst_after:
  "CHR '']'' \<notin> set s \<Longrightarrow>
   replaceFirst ''][''  ''['' (s @ CHR '']'' # CHR ''['' # t) = s @ CHR ''['' # t"
  by (induction s) auto

lemma brackets_joined:
  "''['' @ joinWith ''][''  (t # ts) @ '']'' = concat (map (\<lambda>t. ''['' @ t @ '']'') (t # ts))"
  by (induction ts arbitrary: t) auto

lemma dotToUrlPath_bracket:
  assumes ne: "segs \<noteq> []" and nodot: "\<forall>s \<in> set segs. CHR ''.'' \<notin> set s"
      and first: "CHR '']'' \<notin> set (hd segs)"
  shows "dotToUrlPath (joinWith ''.'' segs) = bracketPath segs"
proof (cases segs)
  case Nil
  with ne show ?thesis by simp
next
  case (Cons s rest)
  show ?thesis
  proof (cases rest)
    case Nil
    with Cons nodot show ?thesis
      by (simp add: dotToUrlPath_def bracketPath_def indexOf_None)
  next
    case (Cons t ts)
    have dot: "indexOf (joinWith ''.'' segs) CHR ''.'' \<noteq> None"
      using \<open>segs = s # rest\<close> Cons by (simp add: indexOf_None)
    have "replaceAllChar CHR ''.'' ''][''  (joinWith ''.'' segs) = joinWith ''][''  segs"
      using nodot by (rule replaceAllChar_joined)
    also have "\<dots> = s @ ''][''  @ joinWith ''][''  (t # ts)"
      using \<open>segs = s # rest\<close> Cons by simp
    finally have "replaceFirst ''][''  ''['' (replaceAllChar CHR ''.'' ''][''  (joinWith ''.'' segs))
                  = s @ ''['' @ joinWith ''][''  (t # ts)"
      using first \<open>segs = s # rest\<close> by (simp add: replaceFirst_after)
    then have "dotToUrlPath (joinWith ''.'' segs) = s @ (''['' @ joinWith ''][''  (t # ts) @ '']'')"
      using dot by (auto simp: dotToUrlPath_def)
    then show ?thesis
      unfolding brackets_joined using \<open>segs = s # rest\<close> Cons by (simp add: bracketPath_def)
  qed
qed

text \<open>
  The statements of \<open>modify\<close> against the pairs in words: \<open>pairsOf\<close> takes the values that
  are given, keeps the defined ones and makes a pair of each.
\<close>

lemma map_option_append:
  "map_option ((@) []) x = x"
  "map_option (\<lambda>y. a @ b @ y) x = map_option ((@) (a @ b)) x"
  "map_option (\<lambda>y. k # b @ y) x = map_option ((@) (k # b)) x"
  "map_option ((@) [k]) x = map_option ((#) k) x"
  by (cases x; simp)+

lemma queryStrings_append:
  "queryStrings (a @ b) ps
   = (case queryStrings a ps of None \<Rightarrow> None | Some x \<Rightarrow> map_option (\<lambda>y. x @ y) (queryStrings b ps))"
  by (induction a) (auto split: option.splits simp: option.map_comp comp_def map_option_append)

lemma givenValues_append:
  "givenValues (a @ b)
   = (case givenValues a of None \<Rightarrow> None | Some x \<Rightarrow> map_option (\<lambda>y. x @ y) (givenValues b))"
  by (induction a rule: givenValues.induct)
     (auto split: option.splits simp: option.map_comp comp_def map_option_append)

lemma queryPairs_append:
  "queryPairs (a @ b)
   = (case queryPairs a of None \<Rightarrow> None | Some x \<Rightarrow> map_option (\<lambda>y. x @ y) (queryPairs b))"
  by (induction a) (auto split: option.splits simp: option.map_comp comp_def map_option_append)

lemma queryStrings_entries:
  "queryStrings (map (\<lambda>e. (fst e, dotToUrlPath (snd e))) es) ps
   = (case givenValues (map (\<lambda>e. (snd e, readQueryValue ps (fst e))) es) of
        None \<Rightarrow> None
      | Some kvs \<Rightarrow> queryPairs (filter (\<lambda>kv. snd kv \<noteq> JUndefined) kvs))"
proof (induction es)
  case Nil
  then show ?case by simp
next
  case (Cons e es)
  show ?case
  proof (cases "readQueryValue ps (fst e)")
    case None
    then show ?thesis by (simp add: modifyStatement_def)
  next
    case (Some v)
    show ?thesis
    proof (cases "v = JUndefined")
      case True
      with Some Cons.IH show ?thesis
        by (auto simp: modifyStatement_def map_option_append split: option.splits)
    next
      case False
      with Some Cons.IH show ?thesis
        by (auto simp: modifyStatement_def queryPair_def map_option_append split: option.splits)
    qed
  qed
qed

lemma queryStrings_parameter:
  "queryStrings (modifyEntries p) ps
   = (case givenValues (queryValues p ps) of
        None \<Rightarrow> None
      | Some kvs \<Rightarrow> queryPairs (filter (\<lambda>kv. snd kv \<noteq> JUndefined) kvs))"
proof (cases "propertyType (property p) = ''class''")
  case True
  let ?es = "map (\<lambda>f. (ReadField (getName p) f, if queryPathOf p \<noteq> [] then queryPathOf p @ ''.'' @ f else f))
               (classProperties (property p))"
  have m: "modifyEntries p = map (\<lambda>e. (fst e, dotToUrlPath (snd e))) ?es"
    using True by (simp add: modifyEntries_def comp_def)
  have q: "queryValues p ps = map (\<lambda>e. (snd e, readQueryValue ps (fst e))) ?es"
    using True by (simp add: queryValues_def comp_def readQueryValue_def)
  show ?thesis unfolding m q by (rule queryStrings_entries)
next
  case False
  let ?es = "[(ReadParameter (getName p), queryPathOf p)]"
  have m: "modifyEntries p = map (\<lambda>e. (fst e, dotToUrlPath (snd e))) ?es"
    using False by (simp add: modifyEntries_def)
  have q: "queryValues p ps = map (\<lambda>e. (snd e, readQueryValue ps (fst e))) ?es"
    using False by (simp add: queryValues_def readQueryValue_def)
  show ?thesis unfolding m q by (rule queryStrings_entries)
qed

lemma queryStrings_parameters:
  "queryStrings (concat (map modifyEntries qps)) ps
   = (case givenValues (concat (map (\<lambda>p. queryValues p ps) qps)) of
        None \<Rightarrow> None
      | Some kvs \<Rightarrow> queryPairs (filter (\<lambda>kv. snd kv \<noteq> JUndefined) kvs))"
proof (induction qps)
  case Nil
  then show ?case by simp
next
  case (Cons p qps)
  show ?case
    unfolding list.map concat.simps queryStrings_append givenValues_append
      queryStrings_parameter Cons.IH
    by (auto split: option.splits simp: queryPairs_append)
qed

lemma runUrlCase_resolved:
  "runUrlCase (getRouteUrlResolveCode X r) ps
   = (case resolvedUrl X r ps of None \<Rightarrow> Inl ValueOutsideModel | Some u \<Rightarrow> Inr u)"
  by (auto simp: runUrlCase_def getRouteUrlResolveCode_def queryStrings_parameters
      resolvedUrl_def definedQueryValues_def split: option.splits)

lemma hexDigit_unreserved: "n < 16 \<Longrightarrow> isUriUnreserved (hexDigit n)"
  by (simp add: hexDigit_def isUriUnreserved_def Let_def)

lemma percentByte_safe:
  "b < 256 \<Longrightarrow> c \<in> set (percentByte b) \<Longrightarrow> isUriUnreserved c \<or> c = CHR ''%''"
  by (auto simp: percentByte_def hexDigit_unreserved less_mult_imp_div_less)

lemma of_char_bound: "(of_char c :: nat) < 256"
proof -
  have "(of_char c :: nat) = of_char (char_of (of_char c :: nat))" by simp
  also have "\<dots> = (of_char c :: nat) mod 256" by (simp only: of_char_of)
  finally show ?thesis by (metis mod_less_divisor zero_less_numeral)
qed

lemma encodeChar_safe: "c \<in> set (encodeChar x) \<Longrightarrow> isUriUnreserved c \<or> c = CHR ''%''"
proof -
  assume c: "c \<in> set (encodeChar x)"
  let ?n = "of_char x :: nat"
  have n: "?n < 256" by (rule of_char_bound)
  have "?n div 64 < 4" using less_mult_imp_div_less [of ?n 4 64] n by simp
  then have a: "192 + ?n div 64 < 256" by simp
  have b: "128 + ?n mod 64 < 256" by simp
  from c percentByte_safe [OF n] percentByte_safe [OF a] percentByte_safe [OF b]
  show ?thesis by (auto simp: encodeChar_def Let_def split: if_splits)
qed

lemma encodeURIComponent_safe:
  "encodeURIComponent v = Some s \<Longrightarrow> c \<in> set s \<Longrightarrow> isUriUnreserved c \<or> c = CHR ''%''"
  by (auto simp: encodeURIComponent_def dest: encodeChar_safe)

text \<open>For the mappings described by \<open>scalarParameters\<close> the URL is given.\<close>

lemma scalar_toString: "scalar v \<Longrightarrow> toString v \<noteq> None"
  by (cases v) (simp_all add: scalar_def toString_def)

lemma scalar_queryPair: "scalar (snd kv) \<Longrightarrow> queryPair kv \<noteq> None"
  using scalar_toString [of "snd kv"] by (simp add: queryPair_def encodeURIComponent_def)

lemma scalar_queryPairs: "list_all (\<lambda>kv. scalar (snd kv)) kvs \<Longrightarrow> queryPairs kvs \<noteq> None"
proof (induction kvs)
  case Nil
  then show ?case by simp
next
  case (Cons kv kvs)
  then show ?case using scalar_queryPair [of kv] by (auto split: option.splits)
qed

lemma scalar_givenValues:
  "list_all (\<lambda>kv. case snd kv of None \<Rightarrow> False | Some v \<Rightarrow> scalar v) kvs \<Longrightarrow>
   \<exists>gv. givenValues kvs = Some gv \<and> list_all (\<lambda>kv. scalar (snd kv)) gv"
proof (induction kvs rule: givenValues.induct)
  case 1
  then show ?case by simp
next
  case (2 k kvs)
  then show ?case by simp
next
  case (3 k v kvs)
  then show ?case by auto
qed

lemma scalar_templateLiteral:
  "list_all (\<lambda>n. f n \<noteq> None) (concat (map (\<lambda>p. case p of Lit c \<Rightarrow> [] | Token n \<Rightarrow> [n]) pcs)) \<Longrightarrow>
   templateLiteral f pcs \<noteq> None"
proof (induction pcs)
  case Nil
  then show ?case by simp
next
  case (Cons p pcs)
  then show ?case by (cases p) (auto split: option.splits)
qed

lemma scalar_queryValues:
  assumes "if propertyType (property p) = ''class''
           then (case getProperty ps (getName p) of
                   JUndefined \<Rightarrow> True
                 | JNull \<Rightarrow> True
                 | JObj ob \<Rightarrow> list_all (\<lambda>f. scalar (getProperty ob f)) (classProperties (property p))
                 | _ \<Rightarrow> False)
           else scalar (getProperty ps (getName p))"
  shows "list_all (\<lambda>kv. case snd kv of None \<Rightarrow> False | Some v \<Rightarrow> scalar v) (queryValues p ps)"
proof (cases "propertyType (property p) = ''class''")
  case False
  with assms show ?thesis by (simp add: queryValues_def)
next
  case True
  show ?thesis
  proof (cases "getProperty ps (getName p)")
    case (JObj ob)
    with assms True show ?thesis
      by (simp add: queryValues_def optionalMember_def list_all_iff)
  qed (use assms True in \<open>simp_all add: queryValues_def optionalMember_def list_all_iff scalar_def\<close>)
qed

lemma scalar_resolvedUrl:
  assumes "scalarParameters X r ps"
  shows "resolvedUrl X r ps \<noteq> None"
proof -
  let ?qps = "filter query (parsedParameters (parseRouteControllerAction X r))"
  have t: "templateLiteral (\<lambda>n. toString (getProperty ps n)) (pieces (getFullPath X r)) \<noteq> None"
  proof (rule scalar_templateLiteral)
    show "list_all (\<lambda>n. toString (getProperty ps n) \<noteq> None)
            (concat (map (\<lambda>p. case p of Lit c \<Rightarrow> [] | Token n \<Rightarrow> [n]) (pieces (getFullPath X r))))"
      using assms scalar_toString
      by (auto simp: scalarParameters_def tokenNames_def list_all_iff)
  qed
  have "list_all (\<lambda>kv. case snd kv of None \<Rightarrow> False | Some v \<Rightarrow> scalar v)
          (concat (map (\<lambda>p. queryValues p ps) ?qps))"
    using assms scalar_queryValues [of _ ps]
    unfolding scalarParameters_def list_all_iff by fastforce
  from scalar_givenValues [OF this] obtain gv where
    g: "givenValues (concat (map (\<lambda>p. queryValues p ps) ?qps)) = Some gv"
    and sc: "list_all (\<lambda>kv. scalar (snd kv)) gv" by blast
  have "list_all (\<lambda>kv. scalar (snd kv)) (filter (\<lambda>kv. snd kv \<noteq> JUndefined) gv)"
    using sc by (simp add: list_all_iff)
  from scalar_queryPairs [OF this] have "queryPairs (filter (\<lambda>kv. snd kv \<noteq> JUndefined) gv) \<noteq> None" .
  with t g show ?thesis
    by (auto simp: resolvedUrl_def definedQueryValues_def split: option.splits)
qed

text \<open>
  C7. The URL a name resolves to is the path with its tokens replaced, followed, when
  a query value is defined, by \<open>?\<close> and one \<open>key=value\<close> per defined value, joined by
  \<open>&\<close>: one for a query parameter, one per field for a class-typed query parameter,
  none for an undefined value. The key is the bracket form of the dotted path, and
  the value is percent-encoded on its own, so that only unreserved characters and
  \<open>%\<close> escapes remain in it. This is the answer of the first call, which compiles the
  resolver, and of every call that finds the resolver compiled from the present
  routes; it is given for every mapping of strings, integers up to \<open>2^53\<close>, \<open>null\<close>,
  \<open>undefined\<close> and plain objects of these.
\<close>

theorem resolveUrl_query_string:
  assumes cache: "resolveFn rt = None \<or> resolveFn rt = Some f"
      and built: "buildUrlResolver X (routes rt) = Inr f"
      and i: "i < length (routes rt)" "name (routes rt ! i) = n"
      and least: "\<forall>j<i. name (routes rt ! j) \<noteq> n"
  shows "fst (resolveUrl X n ps rt)
         = (case resolvedUrl X (routes rt ! i) ps of
              None \<Rightarrow> Inl ValueOutsideModel
            | Some u \<Rightarrow> Inr u)
       \<and> (scalarParameters X (routes rt ! i) ps \<longrightarrow> resolvedUrl X (routes rt ! i) ps \<noteq> None)
       \<and> (\<forall>kvs. definedQueryValues X (routes rt ! i) ps = Some kvs \<longrightarrow>
             (\<forall>kv \<in> set kvs. snd kv \<noteq> JUndefined))
       \<and> (\<forall>segs. segs \<noteq> [] \<and> (\<forall>s \<in> set segs. CHR ''.'' \<notin> set s) \<and> CHR '']'' \<notin> set (hd segs)
             \<longrightarrow> dotToUrlPath (joinWith ''.'' segs) = bracketPath segs)
       \<and> (\<forall>v s c. encodeURIComponent v = Some s \<and> c \<in> set s \<longrightarrow> isUriUnreserved c \<or> c = CHR ''%'')"
proof -
  have "fst (resolveUrl X n ps rt) = runUrlCase (getRouteUrlResolveCode X (routes rt ! i)) ps"
    using cache built i least by (rule resolveUrl_nth)
  moreover have "\<forall>kvs. definedQueryValues X (routes rt ! i) ps = Some kvs \<longrightarrow>
             (\<forall>kv \<in> set kvs. snd kv \<noteq> JUndefined)"
    by (auto simp: definedQueryValues_def)
  moreover have "\<forall>v s c. encodeURIComponent v = Some s \<and> c \<in> set s \<longrightarrow> isUriUnreserved c \<or> c = CHR ''%''"
    using encodeURIComponent_safe by blast
  ultimately show ?thesis
    using dotToUrlPath_bracket scalar_resolvedUrl [of X "routes rt ! i" ps]
    by (simp add: runUrlCase_resolved)
qed

theorem resolveUrl_query_string_witness:
  "fst (resolveUrl exampleExternals ''userProfile''
          [(''id'', JNum 7), (''tab'', JStr ''posts''), (''filter'', JObj [(''a'', JStr ''x y'')])]
          (snd (resolveUrl exampleExternals ''other'' [] (newRouter [searchRoute]))))
   = Inr ''/users/7?tab=posts&filter[a]=x%20y''
   \<and> dotToUrlPath ''a.b'' = ''a[b]''"
proof -
  let ?X = exampleExternals
  let ?ps = "[(''id'', JNum 7), (''tab'', JStr ''posts''), (''filter'', JObj [(''a'', JStr ''x y'')])]"
  let ?f = "map (getRouteUrlResolveCode ?X) [searchRoute]"
  let ?rt = "snd (resolveUrl ?X ''other'' [] (newRouter [searchRoute]))"
  have b0: "buildUrlResolver ?X (routes (newRouter [searchRoute])) = Inr ?f"
    by (simp add: searchRoute_def example_simps resolver_simps query_def getName_def
        isIdentifierName_def isDigitChar_def ownName_def objectPrototypeNames_def)
  have rs: "routes ?rt = [searchRoute]" by (simp add: resolveUrl_routes newRouter_def)
  have built: "buildUrlResolver ?X (routes ?rt) = Inr ?f"
    using b0 rs by (simp add: newRouter_def)
  have cache: "resolveFn ?rt = None \<or> resolveFn ?rt = Some ?f"
    using resolveUrl_first_build [OF _ b0, of "''other''" "[]"] by (simp add: newRouter_def)
  have i: "0 < length (routes ?rt)" "name (routes ?rt ! 0) = ''userProfile''"
    using rs by (simp_all add: searchRoute_def exampleRoute_def)
  have least: "\<forall>j<0. name (routes ?rt ! j) \<noteq> ''userProfile''" by simp
  note t = resolveUrl_query_string [OF cache built i least, of ?ps]
  have d: "definedQueryValues ?X searchRoute ?ps
           = Some [(''tab'', JStr ''posts''), (''filter.a'', JStr ''x y'')]"
    by (simp add: definedQueryValues_def queryValues_def searchRoute_def example_simps query_def
        queryPathOf_def parameterTypePath_def getName_def getProperty_def optionalMember_def)
  have u: "templateLiteral (\<lambda>t. toString (getProperty ?ps t)) (pieces (getFullPath ?X searchRoute)) = Some ''/users/7''"
    by (simp add: searchRoute_def example_simps getProperty_def toString_def char_of_def bit_Suc_0_iff)
  have q: "queryPairs [(''tab'', JStr ''posts''), (''filter.a'', JStr ''x y'')] = Some [''tab=posts'', ''filter[a]=x%20y'']"
    by (simp add: queryPair_def dotToUrlPath_def replaceAllChar_def encodeURIComponent_def toString_def
        encodeChar_def isUriUnreserved_def percentByte_def hexDigit_def Let_def char_of_def bit_Suc_0_iff)
  have r: "resolvedUrl ?X searchRoute ?ps = Some ''/users/7?tab=posts&filter[a]=x%20y''"
    by (simp only: resolvedUrl_def d u option.case q) simp
  have b: "bracketPath [''a'', ''b''] = ''a[b]''" by (simp add: bracketPath_def)
  from t have g: "\<forall>segs. segs \<noteq> [] \<and> (\<forall>s \<in> set segs. CHR ''.'' \<notin> set s) \<and> CHR '']'' \<notin> set (hd segs)
             \<longrightarrow> dotToUrlPath (joinWith ''.'' segs) = bracketPath segs"
    by blast
  have "dotToUrlPath (joinWith ''.'' [''a'', ''b'']) = bracketPath [''a'', ''b'']"
    by (rule g [THEN spec, THEN mp]) simp
  then have k: "dotToUrlPath ''a.b'' = ''a[b]''" using b by simp
  from t rs r k show ?thesis by simp
qed

subsection \<open>Patterns of templates with token expressions\<close>

text \<open>
  Reading an expression without parentheses inside the group of a token goes as reading
  it alone: the steps touch the innermost frame only, and the closing parenthesis of
  the token then makes the group from what the expression compiles to alone.
\<close>

lemma groupsOf_mkAlt: "groupsOf (mkAlt xs) = concat (map groupsOf xs)"
  by (induction xs rule: mkAlt.induct) simp_all

lemma groupFree_closeFrame: "groupFree alts \<Longrightarrow> groupFree cur \<Longrightarrow> groupsOf (closeFrame alts cur) = []"
  by (auto simp: closeFrame_def groupsOf_mkAlt groupsOf_mkSeq groupFree_def list_all_iff)

lemma parseStep_lift:
  assumes c: "c \<noteq> CHR ''(''" "c \<noteq> CHR '')''"
      and step: "parseStep (PState [Frame a cu k0] n0 l md) c = Inr T"
      and l: "md = PNormal \<longrightarrow> l' = l \<or> (l = LStart \<and> l' = LOpen)"
      and gf: "groupFree a" "groupFree cu"
  shows "\<exists>a' cu' l1 l1' md1.
           T = PState [Frame a' cu' k0] n0 l1 md1
           \<and> parseStep (PState (Frame a cu k # G) n l' md) c = Inr (PState (Frame a' cu' k # G) n l1' md1)
           \<and> (md1 = PNormal \<longrightarrow> l1' = l1 \<or> (l1 = LStart \<and> l1' = LOpen))
           \<and> groupFree a' \<and> groupFree cu'"
proof (cases md)
  case PNormal
  with l have ll: "l' = l \<or> (l = LStart \<and> l' = LOpen)" by simp
  show ?thesis
    using step c gf ll unfolding PNormal
    by (auto simp: parseNormal_def pushAtom_def pushAssertion_def quantify_def groupFree_def groupsOf_mkSeq
             list_all_iff split: if_splits plast.splits list.splits)
next
  case PEscape
  show ?thesis
    using step c gf unfolding PEscape
    by (auto simp: parseEscape_def pushAtom_def groupFree_def split: option.splits if_splits)
next
  case PClassStart
  show ?thesis
    using step c gf unfolding PClassStart
    by (auto simp: parseClass_def pushAtom_def groupFree_def split: sum.splits if_splits)
next
  case (PClass neg atoms)
  show ?thesis
    using step c gf unfolding PClass
    by (auto simp: parseClass_def pushAtom_def groupFree_def split: sum.splits if_splits)
next
  case (PClassEscape neg atoms)
  show ?thesis
    using step c gf unfolding PClassEscape
    by (auto simp: parseClassEscape_def groupFree_def split: option.splits if_splits)
qed

lemma parseChars_lift:
  assumes "parenFree e"
      and "parseChars (PState [Frame a cu k0] n0 l md) e = Inr T"
      and "md = PNormal \<longrightarrow> l' = l \<or> (l = LStart \<and> l' = LOpen)"
      and "groupFree a" "groupFree cu"
  shows "\<exists>a' cu' l1 l1' md1.
           T = PState [Frame a' cu' k0] n0 l1 md1
           \<and> parseChars (PState (Frame a cu k # G) n l' md) e = Inr (PState (Frame a' cu' k # G) n l1' md1)
           \<and> groupFree a' \<and> groupFree cu'"
  using assms
proof (induction e arbitrary: a cu l l' md)
  case Nil
  then show ?case by auto
next
  case (Cons c e)
  from Cons.prems(1) have c: "c \<noteq> CHR ''(''" "c \<noteq> CHR '')''" and e: "parenFree e"
    by (simp_all add: parenFree_def)
  from Cons.prems(2) obtain T1 where s1: "parseStep (PState [Frame a cu k0] n0 l md) c = Inr T1"
    and r1: "parseChars T1 e = Inr T"
    by (auto split: sum.splits)
  from parseStep_lift [OF c s1 Cons.prems(3) Cons.prems(4) Cons.prems(5), of k G n]
  obtain a1 cu1 l1 l1' md1 where
    T1: "T1 = PState [Frame a1 cu1 k0] n0 l1 md1"
    and s1': "parseStep (PState (Frame a cu k # G) n l' md) c = Inr (PState (Frame a1 cu1 k # G) n l1' md1)"
    and ll: "md1 = PNormal \<longrightarrow> l1' = l1 \<or> (l1 = LStart \<and> l1' = LOpen)"
    and g1: "groupFree a1" "groupFree cu1"
    by blast
  from Cons.IH [OF e r1 [unfolded T1] ll g1]
  obtain a' cu' l2 l2' md2 where
    "T = PState [Frame a' cu' k0] n0 l2 md2"
    "parseChars (PState (Frame a1 cu1 k # G) n l1' md1) e = Inr (PState (Frame a' cu' k # G) n l2' md2)"
    "groupFree a'" "groupFree cu'"
    by blast
  with s1' show ?case by auto
qed

lemma parse_group:
  assumes e: "simpleExpression e"
  shows "\<exists>g. newRegExp e = Inr g \<and> groupsOf g = []
          \<and> (\<forall>alts cur k fs n l rest.
               parseChars (PState (Frame alts cur k # fs) n l PNormal) (''('' @ e @ '')'' @ rest)
               = parseChars (PState (Frame alts (RGroup n g # cur) k # fs) (Suc n) LAtom PNormal) rest)"
proof -
  from e obtain g where g: "newRegExp e = Inr g" and pf: "parenFree e"
    by (auto simp: simpleExpression_def split: sum.splits)
  from g obtain T where T: "parseChars (PState [Frame [] [] 0] 0 LStart PNormal) e = Inr T"
    and fin: "parseFinish T = Inr g"
    by (auto simp: newRegExp_def split: sum.splits)
  have gf0: "groupFree []" by (simp add: groupFree_def)
  have l0: "PNormal = PNormal \<longrightarrow> LOpen = LStart \<or> (LStart = LStart \<and> LOpen = LOpen)" by simp
  have run: "\<exists>a' cu' l1'. g = closeFrame a' cu' \<and> groupFree a' \<and> groupFree cu'
               \<and> parseChars (PState (Frame [] [] k # G) n LOpen PNormal) e
                   = Inr (PState (Frame a' cu' k # G) n l1' PNormal)" for k G n
  proof -
    from parseChars_lift [OF pf T l0 gf0 gf0, of k G n]
    obtain a' cu' l1 l1' md1 where
      T': "T = PState [Frame a' cu' 0] 0 l1 md1"
      and p: "parseChars (PState (Frame [] [] k # G) n LOpen PNormal) e
              = Inr (PState (Frame a' cu' k # G) n l1' md1)"
      and gf: "groupFree a'" "groupFree cu'"
      by blast
    from fin T' have "md1 = PNormal" "g = closeFrame a' cu'"
      by (auto simp: parseFinish_def split: pmode.splits)
    with p gf show ?thesis by blast
  qed
  have gfree: "groupsOf g = []"
    using run [of 0 "[]" 0] groupFree_closeFrame by blast
  have "parseChars (PState (Frame alts cur k # fs) n l PNormal) (''('' @ e @ '')'' @ rest)
        = parseChars (PState (Frame alts (RGroup n g # cur) k # fs) (Suc n) LAtom PNormal) rest"
    for alts cur k fs n l rest
  proof -
    from run [of n "Frame alts cur k # fs" "Suc n"] obtain a' cu' l1' where
      gc: "g = closeFrame a' cu'"
      and p: "parseChars (PState (Frame [] [] n # Frame alts cur k # fs) (Suc n) LOpen PNormal) e
              = Inr (PState (Frame a' cu' n # Frame alts cur k # fs) (Suc n) l1' PNormal)"
      by blast
    have app: "parseChars S (x @ y) = (case parseChars S x of Inl err \<Rightarrow> Inl err | Inr S' \<Rightarrow> parseChars S' y)"
      for S x y
      by (induction x arbitrary: S) (auto split: sum.splits)
    have "parseChars (PState (Frame alts cur k # fs) n l PNormal) (''('' @ e @ '')'' @ rest)
          = parseChars (PState (Frame [] [] n # Frame alts cur k # fs) (Suc n) LOpen PNormal) (e @ '')'' @ rest)"
      by (simp add: parseNormal_def)
    also have "\<dots> = parseChars (PState (Frame a' cu' n # Frame alts cur k # fs) (Suc n) l1' PNormal) ('')'' @ rest)"
      unfolding app [of _ e] p by simp
    also have "\<dots> = parseChars (PState (Frame alts (RGroup n g # cur) k # fs) (Suc n) LAtom PNormal) rest"
      using gc by (simp add: parseNormal_def)
    finally show ?thesis .
  qed
  with g gfree show ?thesis by blast
qed

lemma tokenPattern_expression: "tokenPattern r n = ''('' @ tokenExpression r n @ '')''"
  by (simp add: tokenPattern_def tokenExpression_def split: option.splits)

lemma replaceTokens_render:
  "replaceTokens (tokenPattern r) p = renderWith (tokenExpression r) (pieces p)"
proof -
  have "(\<lambda>p. case p of Lit c \<Rightarrow> [c] | Token n \<Rightarrow> tokenPattern r n)
        = (\<lambda>p. case p of Lit c \<Rightarrow> [c] | Token n \<Rightarrow> ''('' @ tokenExpression r n @ '')'')"
    by (auto simp: fun_eq_iff tokenPattern_expression split: piece.splits)
  then show ?thesis by (simp add: replaceTokens_def renderWith_def)
qed

lemma renderWith_simps:
  "renderWith e [] = []"
  "renderWith e (Lit c # ps) = c # renderWith e ps"
  "renderWith e (Token n # ps) = ''('' @ e n @ '')'' @ renderWith e ps"
  by (simp_all add: renderWith_def)

lemma expression_group:
  assumes "simpleExpression (tokenExpression r t)"
  shows "groupsOf (expressionRx r t) = []"
    and "parseChars (PState (Frame alts cur k # fs) n l PNormal) (''('' @ tokenExpression r t @ '')'' @ rest)
         = parseChars (PState (Frame alts (RGroup n (expressionRx r t) # cur) k # fs) (Suc n) LAtom PNormal) rest"
proof -
  from parse_group [OF assms] obtain g where
    g: "newRegExp (tokenExpression r t) = Inr g" and gf: "groupsOf g = []"
    and p: "\<forall>alts cur k fs n l rest.
               parseChars (PState (Frame alts cur k # fs) n l PNormal) (''('' @ tokenExpression r t @ '')'' @ rest)
               = parseChars (PState (Frame alts (RGroup n g # cur) k # fs) (Suc n) LAtom PNormal) rest"
    by blast
  have e: "expressionRx r t = g" using g by (simp add: expressionRx_def)
  show "groupsOf (expressionRx r t) = []" using gf e by simp
  show "parseChars (PState (Frame alts cur k # fs) n l PNormal) (''('' @ tokenExpression r t @ '')'' @ rest)
         = parseChars (PState (Frame alts (RGroup n (expressionRx r t) # cur) k # fs) (Suc n) LAtom PNormal) rest"
    unfolding e using p by blast
qed

lemma parse_grouped:
  assumes "plainPieces ps"
      and "list_all (\<lambda>n. simpleExpression (tokenExpression r n))
             (concat (map (\<lambda>p. case p of Lit c \<Rightarrow> [] | Token n \<Rightarrow> [n]) ps))"
  shows "parseChars (PState (Frame alts cur k # fs) n l PNormal) (renderWith (tokenExpression r) ps @ rest)
         = parseChars (PState (Frame alts (rev (groupedRx (expressionRx r) n ps) @ cur) k # fs) (n + tokenCount ps)
              (if ps = [] then l else LAtom) PNormal) rest"
  using assms
proof (induction ps arbitrary: cur n l)
  case Nil
  then show ?case by (simp add: renderWith_simps)
next
  case (Cons p ps)
  then have rest: "plainPieces ps" by (simp add: plainPieces_def)
  show ?case
  proof (cases p)
    case (Lit c)
    then have c: "\<not> isSyntaxChar c" using Cons.prems by (simp add: plainPieces_def)
    have ex: "list_all (\<lambda>n. simpleExpression (tokenExpression r n))
                (concat (map (\<lambda>p. case p of Lit c \<Rightarrow> [] | Token n \<Rightarrow> [n]) ps))"
      using Cons.prems(2) Lit by simp
    have "parseChars (PState (Frame alts cur k # fs) n l PNormal) (renderWith (tokenExpression r) (p # ps) @ rest)
          = parseChars (PState (Frame alts (RChar c # cur) k # fs) n LAtom PNormal)
              (renderWith (tokenExpression r) ps @ rest)"
      using Lit parse_plain_char [OF c] by (simp add: renderWith_simps)
    also have "\<dots> = parseChars (PState (Frame alts (rev (groupedRx (expressionRx r) n ps) @ RChar c # cur) k # fs)
                        (n + tokenCount ps) (if ps = [] then LAtom else LAtom) PNormal) rest"
      by (rule Cons.IH [OF rest ex])
    finally show ?thesis using Lit by simp
  next
    case (Token t)
    have se: "simpleExpression (tokenExpression r t)" using Cons.prems(2) Token by simp
    have ex: "list_all (\<lambda>n. simpleExpression (tokenExpression r n))
                (concat (map (\<lambda>p. case p of Lit c \<Rightarrow> [] | Token n \<Rightarrow> [n]) ps))"
      using Cons.prems(2) Token by simp
    have "renderWith (tokenExpression r) (p # ps) @ rest
          = ''('' @ tokenExpression r t @ '')'' @ (renderWith (tokenExpression r) ps @ rest)"
      using Token by (simp add: renderWith_simps)
    then have "parseChars (PState (Frame alts cur k # fs) n l PNormal) (renderWith (tokenExpression r) (p # ps) @ rest)
          = parseChars (PState (Frame alts (RGroup n (expressionRx r t) # cur) k # fs) (Suc n) LAtom PNormal)
              (renderWith (tokenExpression r) ps @ rest)"
      using expression_group(2) [OF se] by simp
    also have "\<dots> = parseChars (PState (Frame alts (rev (groupedRx (expressionRx r) (Suc n) ps)
                                                        @ RGroup n (expressionRx r t) # cur) k # fs)
                        (Suc n + tokenCount ps) (if ps = [] then LAtom else LAtom) PNormal) rest"
      by (rule Cons.IH [OF rest ex])
    finally show ?thesis using Token by simp
  qed
qed

lemma simpleRoute_pattern:
  assumes "simpleRoute X r"
  shows "newRegExp (patternSource X r) = Inr (groupedPattern (expressionRx r) (pieces (getFullPath X r)))"
proof -
  let ?ps = "pieces (getFullPath X r)"
  have pl: "plainPieces ?ps" using assms by (simp add: simpleRoute_def)
  have ex: "list_all (\<lambda>n. simpleExpression (tokenExpression r n))
              (concat (map (\<lambda>p. case p of Lit c \<Rightarrow> [] | Token n \<Rightarrow> [n]) ?ps))"
    using assms by (simp add: simpleRoute_def tokenNames_def)
  have src: "patternSource X r = ''^'' @ renderWith (tokenExpression r) ?ps @ ''$''"
    by (simp add: patternSource_def parseRouteControllerAction_def parseRoutePathToRegex_def Let_def
        replaceTokens_render)
  have "parseChars (PState [Frame [] [] 0] 0 LStart PNormal) (''^'' @ renderWith (tokenExpression r) ?ps @ ''$'')
        = parseChars (PState [Frame [] [RBol] 0] 0 LAssert PNormal) (renderWith (tokenExpression r) ?ps @ ''$'')"
    by (simp add: parseNormal_def pushAssertion_def)
  also have "\<dots> = parseChars (PState [Frame [] (rev (groupedRx (expressionRx r) 0 ?ps) @ [RBol]) 0] (0 + tokenCount ?ps)
                       (if ?ps = [] then LAssert else LAtom) PNormal) ''$''"
    by (rule parse_grouped [OF pl ex])
  also have "\<dots> = Inr (PState [Frame [] (REol # rev (groupedRx (expressionRx r) 0 ?ps) @ [RBol]) 0]
                          (0 + tokenCount ?ps) LAssert PNormal)"
    by (simp add: parseNormal_def pushAssertion_def)
  finally show ?thesis
    unfolding src by (simp add: newRegExp_def parseFinish_def closeFrame_def groupedPattern_def)
qed

text \<open>What a pattern consumes and which captures it sets.\<close>

lemma starIter_frame:
  assumes f: "\<And>st st1. st1 \<in> set (f st) \<Longrightarrow>
                (\<exists>u. fst st = u @ fst st1) \<and> (\<forall>k. k \<notin> G \<longrightarrow> snd st1 k = snd st k)"
  shows "st' \<in> set (starIter f n st) \<Longrightarrow>
         (\<exists>u. fst st = u @ fst st') \<and> (\<forall>k. k \<notin> G \<longrightarrow> snd st' k = snd st k)"
proof (induction n arbitrary: st)
  case 0
  then show ?case by simp
next
  case (Suc n)
  from Suc.prems consider (stop) "st' = st"
    | (more) st1 where "st1 \<in> set (f st)" "st' \<in> set (starIter f n st1)"
    by (auto split: if_splits)
  then show ?case
  proof cases
    case stop
    then show ?thesis by simp
  next
    case more
    from f [OF more(1)] obtain u where u: "fst st = u @ fst st1"
      and c: "\<forall>k. k \<notin> G \<longrightarrow> snd st1 k = snd st k" by blast
    from Suc.IH [OF more(2)] obtain v where v: "fst st1 = v @ fst st'"
      and d: "\<forall>k. k \<notin> G \<longrightarrow> snd st' k = snd st1 k" by blast
    have "fst st = (u @ v) @ fst st'" using u v by simp
    then show ?thesis using c d by metis
  qed
qed

lemma ms_frame:
  "st \<in> set (ms inp r s cp) \<Longrightarrow>
   (\<exists>u. s = u @ fst st) \<and> (\<forall>k. k \<notin> set (groupsOf r) \<longrightarrow> snd st k = cp k)"
proof (induction r arbitrary: s cp st)
  case REmpty
  then show ?case by simp
next
  case (RChar c)
  then show ?case by (auto split: list.splits if_splits)
next
  case RAny
  then show ?case by (auto split: list.splits if_splits)
next
  case (RClass neg items)
  then show ?case by (auto split: list.splits if_splits)
next
  case RBol
  then show ?case by (auto split: if_splits)
next
  case REol
  then show ?case by (auto split: if_splits)
next
  case (RSeq a b)
  from RSeq.prems obtain st1 where st1: "st1 \<in> set (ms inp a s cp)"
    and st: "st \<in> set (ms inp b (fst st1) (snd st1))" by auto
  from RSeq.IH(1) [OF st1] obtain u where u: "s = u @ fst st1"
    and c: "\<forall>k. k \<notin> set (groupsOf a) \<longrightarrow> snd st1 k = cp k" by blast
  from RSeq.IH(2) [OF st] obtain v where v: "fst st1 = v @ fst st"
    and d: "\<forall>k. k \<notin> set (groupsOf b) \<longrightarrow> snd st k = snd st1 k" by blast
  have "s = (u @ v) @ fst st" using u v by simp
  moreover have "\<forall>k. k \<notin> set (groupsOf (RSeq a b)) \<longrightarrow> snd st k = cp k" using c d by simp
  ultimately show ?case by blast
next
  case (RAlt a b)
  from RAlt.prems have "st \<in> set (ms inp a s cp) \<or> st \<in> set (ms inp b s cp)" by simp
  then show ?case using RAlt.IH(1) [of st s cp] RAlt.IH(2) [of st s cp] by auto
next
  case (RStar a)
  let ?f = "\<lambda>st. ms inp a (fst st) (clearGroups (groupsOf a) (snd st))"
  have f: "(\<exists>u. fst st0 = u @ fst st1) \<and> (\<forall>k. k \<notin> set (groupsOf a) \<longrightarrow> snd st1 k = snd st0 k)"
    if "st1 \<in> set (?f st0)" for st0 st1
    using RStar.IH [OF that] by (simp add: clearGroups_def)
  from RStar.prems have "st \<in> set (starIter ?f (length s) (s, cp))" by simp
  from starIter_frame [of ?f "set (groupsOf a)", OF f this] show ?case by simp
next
  case (RPlus a)
  let ?f = "\<lambda>st. ms inp a (fst st) (clearGroups (groupsOf a) (snd st))"
  have f: "(\<exists>u. fst st0 = u @ fst st1) \<and> (\<forall>k. k \<notin> set (groupsOf a) \<longrightarrow> snd st1 k = snd st0 k)"
    if "st1 \<in> set (?f st0)" for st0 st1
    using RPlus.IH [OF that] by (simp add: clearGroups_def)
  from RPlus.prems obtain st1 where st1: "st1 \<in> set (ms inp a s (clearGroups (groupsOf a) cp))"
    and st: "st \<in> set (starIter ?f (length s) st1)" by auto
  from RPlus.IH [OF st1] obtain u where u: "s = u @ fst st1"
    and c: "\<forall>k. k \<notin> set (groupsOf a) \<longrightarrow> snd st1 k = cp k" by (auto simp: clearGroups_def)
  from starIter_frame [of ?f "set (groupsOf a)", OF f st] obtain v where v: "fst st1 = v @ fst st"
    and d: "\<forall>k. k \<notin> set (groupsOf a) \<longrightarrow> snd st k = snd st1 k" by blast
  have "s = (u @ v) @ fst st" using u v by simp
  moreover have "\<forall>k. k \<notin> set (groupsOf (RPlus a)) \<longrightarrow> snd st k = cp k" using c d by simp
  ultimately show ?case by blast
next
  case (ROpt a)
  from ROpt.prems have "st \<in> set (ms inp a s (clearGroups (groupsOf a) cp)) \<or> st = (s, cp)"
    by auto
  then show ?case
  proof
    assume "st \<in> set (ms inp a s (clearGroups (groupsOf a) cp))"
    from ROpt.IH [OF this] show ?thesis by (auto simp: clearGroups_def)
  next
    assume "st = (s, cp)"
    then show ?thesis by simp
  qed
next
  case (RGroup k a)
  from RGroup.prems obtain st0 where st0: "st0 \<in> set (ms inp a s cp)"
    and st: "st = (fst st0, (snd st0)(k \<mapsto> take (length s - length (fst st0)) s))" by auto
  from RGroup.IH [OF st0] st show ?case by auto
qed

lemma ms_group:
  assumes "st \<in> set (ms inp (RGroup k a) s cp)" and "groupsOf a = []"
  shows "\<exists>v. s = v @ fst st \<and> snd st = cp(k \<mapsto> v)"
proof -
  from assms(1) obtain st0 where st0: "st0 \<in> set (ms inp a s cp)"
    and st: "st = (fst st0, (snd st0)(k \<mapsto> take (length s - length (fst st0)) s))" by auto
  from ms_frame [OF st0] assms(2) obtain u where u: "s = u @ fst st0" and c: "\<forall>j. snd st0 j = cp j"
    by auto
  from c have "snd st0 = cp" by (simp add: fun_eq_iff)
  moreover have "take (length s - length (fst st0)) s = u" using u by simp
  ultimately show ?thesis using st u by auto
qed

lemma ms_grouped:
  assumes "st' \<in> set (ms inp (mkSeq (groupedRx g k ps @ [REol])) s cp)"
      and "list_all (\<lambda>n. groupsOf (g n) = []) (concat (map (\<lambda>p. case p of Lit c \<Rightarrow> [] | Token n \<Rightarrow> [n]) ps))"
  shows "fst st' = [] \<and> s = fill ps k (snd st') \<and> (\<forall>j<k. snd st' j = cp j)
       \<and> (\<forall>j. k \<le> j \<and> j < k + tokenCount ps \<longrightarrow> (\<exists>v. snd st' j = Some v))"
  using assms
proof (induction ps arbitrary: k s cp)
  case Nil
  then show ?case by (auto simp: mkSeq_def split: if_splits)
next
  case (Cons p ps)
  show ?case
  proof (cases p)
    case (Lit c)
    with Cons.prems obtain s1 where s: "s = c # s1"
      and st: "st' \<in> set (ms inp (mkSeq (groupedRx g k ps @ [REol])) s1 cp)"
      by (auto simp: mkSeq_Cons split: list.splits if_splits)
    have "list_all (\<lambda>n. groupsOf (g n) = []) (concat (map (\<lambda>p. case p of Lit c \<Rightarrow> [] | Token n \<Rightarrow> [n]) ps))"
      using Cons.prems(2) Lit by simp
    from Cons.IH [OF st this] s Lit show ?thesis by simp
  next
    case (Token t)
    with Cons.prems obtain st1 where st1: "st1 \<in> set (ms inp (RGroup k (g t)) s cp)"
      and st: "st' \<in> set (ms inp (mkSeq (groupedRx g (Suc k) ps @ [REol])) (fst st1) (snd st1))"
      by (auto simp add: mkSeq_Cons simp del: ms.simps(12))
    have gt: "groupsOf (g t) = []" using Cons.prems(2) Token by simp
    have rest: "list_all (\<lambda>n. groupsOf (g n) = []) (concat (map (\<lambda>p. case p of Lit c \<Rightarrow> [] | Token n \<Rightarrow> [n]) ps))"
      using Cons.prems(2) Token by simp
    from ms_group [OF st1 gt] obtain v where
      v: "s = v @ fst st1" "snd st1 = cp(k \<mapsto> v)" by blast
    from Cons.IH [OF st rest] have
      a: "fst st' = []" and b: "fst st1 = fill ps (Suc k) (snd st')"
      and c: "\<forall>j<Suc k. snd st' j = snd st1 j"
      and d: "\<forall>j. Suc k \<le> j \<and> j < Suc k + tokenCount ps \<longrightarrow> (\<exists>v. snd st' j = Some v)"
      by simp_all
    have k: "snd st' k = Some v" using c v by simp
    have "s = fill (p # ps) k (snd st')" using Token v b k by simp
    moreover have "\<forall>j<k. snd st' j = cp j" using c v by simp
    moreover have "\<forall>j. k \<le> j \<and> j < k + tokenCount (p # ps) \<longrightarrow> (\<exists>v. snd st' j = Some v)"
    proof (intro allI impI)
      fix j assume j: "k \<le> j \<and> j < k + tokenCount (p # ps)"
      show "\<exists>v. snd st' j = Some v"
      proof (cases "j = k")
        case True
        then show ?thesis using k by simp
      next
        case False
        then have "Suc k \<le> j \<and> j < Suc k + tokenCount ps" using j Token by simp
        then show ?thesis using d by blast
      qed
    qed
    ultimately show ?thesis using a by simp
  qed
qed

lemma stringMatch_grouped:
  assumes "stringMatch p (groupedPattern g ps) = Some cp"
      and "list_all (\<lambda>n. groupsOf (g n) = []) (concat (map (\<lambda>p. case p of Lit c \<Rightarrow> [] | Token n \<Rightarrow> [n]) ps))"
  shows "p = fill ps 0 cp \<and> (\<forall>j < tokenCount ps. \<exists>v. cp j = Some v)"
proof -
  have pat: "groupedPattern g ps = RSeq RBol (mkSeq (groupedRx g 0 ps @ [REol]))"
    by (simp add: groupedPattern_def mkSeq_Cons)
  from assms(1) obtain st rest where
    st: "ms p (mkSeq (groupedRx g 0 ps @ [REol])) p Map.empty = st # rest" and cp: "cp = snd st"
    by (auto simp: pat stringMatch_bol split: list.splits)
  then have "st \<in> set (ms p (mkSeq (groupedRx g 0 ps @ [REol])) p Map.empty)" by simp
  from ms_grouped [OF this assms(2)] cp show ?thesis by simp
qed

lemma simpleRoute_match:
  assumes s: "simpleRoute X r" and m: "routeCaptures X r p = Some caps" and ne: "methodProperties r \<noteq> []"
  shows "p = fill (pieces (getFullPath X r)) 0 caps
       \<and> (\<forall>j < length (tokenNames (getFullPath X r)). \<exists>v. caps j = Some v)"
proof -
  let ?ps = "pieces (getFullPath X r)"
  have gf: "list_all (\<lambda>n. groupsOf (expressionRx r n) = [])
              (concat (map (\<lambda>p. case p of Lit c \<Rightarrow> [] | Token n \<Rightarrow> [n]) ?ps))"
    using s expression_group(1) [of r] by (auto simp: simpleRoute_def tokenNames_def list_all_iff)
  from m ne simpleRoute_pattern [OF s] have "stringMatch p (groupedPattern (expressionRx r) ?ps) = Some caps"
    by (auto simp: routeCaptures_def getRouteCode_pattern runMatcher_def split: if_splits)
  from stringMatch_grouped [OF this gf] show ?thesis
    by (simp add: tokenCount_length tokenNames_def)
qed

subsection \<open>Round trip of path parameters\<close>

lemma requestPath_no_query: "CHR ''?'' \<notin> set (requestPath u)"
  by (auto simp: requestPath_takeWhile dest: set_takeWhileD)

lemma requestPath_append: "CHR ''?'' \<notin> set p \<Longrightarrow> requestPath (p @ CHR ''?'' # q) = p"
  unfolding requestPath_takeWhile by (induction p) auto

lemma requestPath_plain: "CHR ''?'' \<notin> set p \<Longrightarrow> requestPath p = p"
  unfolding requestPath_takeWhile by (induction p) auto

lemma templateLiteral_fill:
  "concat (map (\<lambda>p. case p of Lit c \<Rightarrow> [] | Token n \<Rightarrow> [n]) pcs) = ns \<Longrightarrow>
   (\<forall>j<length ns. \<exists>v. caps (k + j) = Some v \<and> f (ns ! j) = Some v) \<Longrightarrow>
   templateLiteral f pcs = Some (fill pcs k caps)"
proof (induction pcs arbitrary: k ns)
  case Nil
  then show ?case by simp
next
  case (Cons p pcs)
  show ?case
  proof (cases p)
    case (Lit c)
    with Cons.prems have "concat (map (\<lambda>p. case p of Lit c \<Rightarrow> [] | Token n \<Rightarrow> [n]) pcs) = ns" by simp
    from Cons.IH [OF this Cons.prems(2)] Lit show ?thesis by simp
  next
    case (Token t)
    with Cons.prems(1) obtain ms where ns: "ns = t # ms"
      and ms: "concat (map (\<lambda>p. case p of Lit c \<Rightarrow> [] | Token n \<Rightarrow> [n]) pcs) = ms" by auto
    have "\<forall>j<length ms. \<exists>v. caps (Suc k + j) = Some v \<and> f (ms ! j) = Some v"
    proof (intro allI impI)
      fix j assume "j < length ms"
      then have "Suc j < length ns" using ns by simp
      with Cons.prems(2) obtain v where "caps (k + Suc j) = Some v \<and> f (ns ! Suc j) = Some v" by blast
      then show "\<exists>v. caps (Suc k + j) = Some v \<and> f (ms ! j) = Some v" using ns by simp
    qed
    from Cons.IH [OF ms this] have r: "templateLiteral f pcs = Some (fill pcs (Suc k) caps)" .
    from Cons.prems(2) ns obtain v where "caps (k + 0) = Some v \<and> f (ns ! 0) = Some v" by fastforce
    then have "caps k = Some v" "f t = Some v" using ns by simp_all
    then show ?thesis using Token r by simp
  qed
qed

lemma templateLiteral_literal: "templateLiteral f (map Lit s) = Some s"
  by (induction s) auto

lemma assignIndices_distinct:
  "distinct ns \<Longrightarrow> j < length ns \<Longrightarrow> assignIndices ns 0 Map.empty (ns ! j) = Some j"
proof -
  assume d: "distinct ns" and j: "j < length ns"
  have "\<forall>l. j < l \<and> l < length ns \<longrightarrow> ns ! l \<noteq> ns ! j"
    using d j by (auto simp: nth_eq_iff_index_eq)
  from assignIndices_last [OF j refl this, of 0 Map.empty] show ?thesis by simp
qed

lemma getProperty_zip:
  "distinct ks \<Longrightarrow> length vs = length ks \<Longrightarrow> i < length ks \<Longrightarrow> getProperty (zip ks vs) (ks ! i) = vs ! i"
proof -
  assume d: "distinct ks" and l: "length vs = length ks" and i: "i < length ks"
  have "map_of (zip ks vs) (ks ! i) = Some (vs ! i)"
    using d l i by (simp add: map_of_zip_nth)
  then show ?thesis by (simp add: getProperty_def)
qed

lemma validateAll_pathBound:
  "pathBoundOnly bps \<Longrightarrow> validateAll X m q bf bps errs = validateAll X m q' bf' bps errs"
proof (induction bps arbitrary: errs)
  case Nil
  then show ?case by simp
next
  case (Cons bp bps)
  then have rest: "pathBoundOnly bps" by (simp add: pathBoundOnly_def)
  have "validateParameter X m q bf bp errs = validateParameter X m q' bf' bp errs"
    using Cons.prems by (cases "fst bp") (simp_all add: pathBoundOnly_def validateParameter_def)
  then show ?case using Cons.IH [OF rest] by (simp split: sum.splits)
qed

lemma setAll_pathBound:
  "pathBoundOnly bps \<Longrightarrow> setAll X m q bf ij be bps = setAll X m q' bf' ij' be' bps"
proof (induction bps)
  case Nil
  then show ?case by simp
next
  case (Cons bp bps)
  then have rest: "pathBoundOnly bps" by (simp add: pathBoundOnly_def)
  have "setParameter X m q bf ij be bp = setParameter X m q' bf' ij' be' bp"
    using Cons.prems by (cases "fst bp") (simp_all add: pathBoundOnly_def setParameter_def)
  then show ?case using Cons.IH [OF rest] by (simp split: sum.splits)
qed

lemma pathBoundOnly_flags:
  "pathBoundOnly (bindings pr) \<Longrightarrow> \<not> enableParseBody pr \<and> \<not> hasSink pr"
proof -
  have "pathBoundOnly bps \<Longrightarrow> \<not> list_ex (\<lambda>bp. fst bp = BodyBound) bps \<and> \<not> list_ex (\<lambda>bp. fst bp = ErrorSink) bps" for bps
    by (induction bps) (auto simp: pathBoundOnly_def split: binding.splits)
  then show "pathBoundOnly (bindings pr) \<Longrightarrow> \<not> enableParseBody pr \<and> \<not> hasSink pr"
    by (simp add: enableParseBody_def hasSink_def)
qed

lemma parametersFunction_pathBound:
  assumes "pathBoundOnly (bindings pr)"
  shows "parametersFunction X pr q b mv ij = parametersFunction X pr q' b' mv ij'"
proof -
  from pathBoundOnly_flags [OF assms] have f: "\<not> enableParseBody pr" "\<not> hasSink pr" by simp_all
  let ?bf = "case b of Some f \<Rightarrow> f | None \<Rightarrow> JUndefined"
  let ?bf' = "case b' of Some f \<Rightarrow> f | None \<Rightarrow> JUndefined"
  have v: "validateAll X mv q ?bf (bindings pr) ([], []) = validateAll X mv q' ?bf' (bindings pr) ([], [])"
    using assms by (rule validateAll_pathBound)
  have s: "setAll X mv q ?bf ij be (bindings pr) = setAll X mv q' ?bf' ij' be (bindings pr)" for be
    using assms by (rule setAll_pathBound)
  show ?thesis
    unfolding parametersFunction_def Let_def using f v s by (simp split: sum.splits)
qed

lemma parametersFunction_args:
  assumes "parametersFunction X pr q b (Some m) ij = Inr args"
      and "k < length (bindings pr)" and "fst (bindings pr ! k) = PathBound pos"
  shows "length args = length (bindings pr)
       \<and> args ! k = argumentConverter X (property (snd (bindings pr ! k))) (captured m pos)"
proof -
  from assms(1) obtain bf be where s: "setAll X (Some m) q bf ij be (bindings pr) = Inr args"
    by (auto simp: parametersFunction_def Let_def split: if_splits sum.splits)
  from setAll_nth [OF s] assms(2) have
    l: "length args = length (bindings pr)"
    and n: "setParameter X (Some m) q bf ij be (bindings pr ! k) = Inr (args ! k)" by simp_all
  from n assms(3) have "args ! k = argumentConverter X (property (snd (bindings pr ! k))) (captured m pos)"
    by (simp add: setParameter_def)
  with l show ?thesis by simp
qed

lemma bindings_nth:
  assumes "k < length (methodProperties r)"
  shows "snd (bindings (parseRouteControllerAction X r) ! k) = parsedParameters (parseRouteControllerAction X r) ! k"
    and "propertyName (property (parsedParameters (parseRouteControllerAction X r) ! k)) = propertyName (methodProperties r ! k)"
    and "regexPosition (parsedParameters (parseRouteControllerAction X r) ! k)
         = assignIndices (tokenNames (getFullPath X r)) 0 Map.empty (propertyName (methodProperties r ! k))"
    and "regexPosition (parsedParameters (parseRouteControllerAction X r) ! k) = Some pos
         \<Longrightarrow> fst (bindings (parseRouteControllerAction X r) ! k) = PathBound pos"
  using assms
  by (simp_all add: bindings_def parseRouteControllerAction_def parseRoutePathToRegex_def Let_def
      parseParameter_def nth_enumerate_eq classify_def split: option.splits)

text \<open>
  The path of a simple route whose tokens are distinct and are the names of the handler's
  parameters, from the arguments of a match that print back.
\<close>

lemma round_trip_core:
  assumes simple: "simpleRoute X r"
      and tokens: "distinct (tokenNames (getFullPath X r))"
      and names: "distinct (map propertyName (methodProperties r))"
      and bound: "set (map propertyName (methodProperties r)) = set (tokenNames (getFullPath X r))"
      and ne: "methodProperties r \<noteq> []"
      and caps: "routeCaptures X r p = Some caps"
      and prints: "printsBack X r p"
      and args: "parametersFunction X (parseRouteControllerAction X r) q b (Some caps) ij = Inr args"
  shows "pathBoundOnly (bindings (parseRouteControllerAction X r))
       \<and> length args = length (methodProperties r)
       \<and> (\<forall>k<length args. toString (args ! k) \<noteq> None)
       \<and> templateLiteral (\<lambda>n. toString (getProperty (zip (map propertyName (methodProperties r)) args) n))
            (pieces (getFullPath X r)) = Some p"
proof -
  let ?pr = "parseRouteControllerAction X r"
  let ?tn = "tokenNames (getFullPath X r)"
  let ?props = "methodProperties r"
  let ?ns = "map propertyName ?props"
  let ?ps = "zip ?ns args"
  have len: "length (bindings ?pr) = length ?props" by (rule bindings_length)
  have pos: "\<exists>j<length ?tn. ?tn ! j = propertyName (?props ! k)
               \<and> fst (bindings ?pr ! k) = PathBound j
               \<and> regexPosition (parsedParameters ?pr ! k) = Some j"
    if k: "k < length ?props" for k
  proof -
    have "propertyName (?props ! k) \<in> set ?tn" using bound k by (metis nth_map length_map nth_mem)
    then obtain j where j: "j < length ?tn" "?tn ! j = propertyName (?props ! k)"
      by (auto simp: in_set_conv_nth)
    have "regexPosition (parsedParameters ?pr ! k) = Some j"
      using bindings_nth(3) [OF k, of X] assignIndices_distinct [OF tokens j(1)] j(2) by simp
    with bindings_nth(4) [OF k this] j show ?thesis by blast
  qed
  have pb: "pathBoundOnly (bindings ?pr)"
    unfolding pathBoundOnly_def list_all_length
  proof (intro allI impI)
    fix k assume "k < length (bindings ?pr)"
    then have "k < length ?props" using len by simp
    from pos [OF this] show "case fst (bindings ?pr ! k) of PathBound pos \<Rightarrow> True | _ \<Rightarrow> False"
      by auto
  qed
  from simpleRoute_match [OF simple caps ne] have
    p: "p = fill (pieces (getFullPath X r)) 0 caps"
    and given: "\<forall>j<length ?tn. \<exists>v. caps j = Some v"
    by simp_all
  have la: "length args = length ?props"
  proof -
    from ne obtain k where "k < length ?props" by (cases ?props) auto
    from pos [OF this] obtain j where "fst (bindings ?pr ! k) = PathBound j" by blast
    from parametersFunction_args [OF args _ this] \<open>k < length ?props\<close> len show ?thesis by simp
  qed
  have arg: "\<exists>j v. j < length ?tn \<and> ?tn ! j = propertyName (?props ! k) \<and> caps j = Some v
               \<and> toString (args ! k) = Some v"
    if k: "k < length ?props" for k
  proof -
    from pos [OF k] obtain j where j: "j < length ?tn" "?tn ! j = propertyName (?props ! k)"
      and b: "fst (bindings ?pr ! k) = PathBound j"
      and rp: "regexPosition (parsedParameters ?pr ! k) = Some j" by blast
    from given j obtain v where v: "caps j = Some v" by blast
    have kb: "k < length (bindings ?pr)" using k len by simp
    from parametersFunction_args [OF args kb b] have
      a: "args ! k = argumentConverter X (property (snd (bindings ?pr ! k))) (captured caps j)"
      by simp
    have mem: "parsedParameters ?pr ! k \<in> set (parsedParameters ?pr)"
      using k by (simp add: parseRouteControllerAction_def Let_def)
    from prints caps have "list_all (\<lambda>prm. case regexPosition prm of
                           None \<Rightarrow> True
                         | Some pos \<Rightarrow>
                             toString (argumentConverter X (property prm) (captured caps pos)) = caps pos)
                   (parsedParameters ?pr)"
      by (simp add: printsBack_def)
    with mem rp have "toString (argumentConverter X (property (parsedParameters ?pr ! k)) (captured caps j)) = caps j"
      by (auto simp: list_all_iff)
    then have "toString (args ! k) = Some v"
      using a v bindings_nth(1) [OF k, of X] by simp
    with j v show ?thesis by blast
  qed
  have strs: "\<forall>k<length args. toString (args ! k) \<noteq> None"
    using arg la by fastforce
  have val: "\<exists>v. caps (0 + j) = Some v \<and> toString (getProperty ?ps (?tn ! j)) = Some v"
    if j: "j < length ?tn" for j
  proof -
    have "?tn ! j \<in> set ?ns" using bound j by simp
    then obtain k where k: "k < length ?props" "propertyName (?props ! k) = ?tn ! j"
      by (auto simp: in_set_conv_nth)
    from arg [OF k(1)] obtain j' v where j': "j' < length ?tn" "?tn ! j' = propertyName (?props ! k)"
      "caps j' = Some v" "toString (args ! k) = Some v" by blast
    have "j' = j" using tokens j j' k(2) by (simp add: nth_eq_iff_index_eq)
    have "getProperty ?ps (?ns ! k) = args ! k"
      using names la k(1) by (intro getProperty_zip) simp_all
    then have "getProperty ?ps (?tn ! j) = args ! k" using k by simp
    with j' \<open>j' = j\<close> show ?thesis by simp
  qed
  have "templateLiteral (\<lambda>n. toString (getProperty ?ps n)) (pieces (getFullPath X r))
        = Some (fill (pieces (getFullPath X r)) 0 caps)"
  proof (rule templateLiteral_fill)
    show "concat (map (\<lambda>p. case p of Lit c \<Rightarrow> [] | Token n \<Rightarrow> [n]) (pieces (getFullPath X r))) = ?tn"
      by (simp add: tokenNames_def)
    show "\<forall>j<length ?tn. \<exists>v. caps (0 + j) = Some v \<and> toString (getProperty ?ps (?tn ! j)) = Some v"
      using val by blast
  qed
  with p pb la strs show ?thesis by simp
qed

text \<open>The query string of such a route, when no class-typed query parameter is among the parameters.\<close>

lemma given_queryValues:
  "\<forall>p \<in> set qps. propertyType (property p) \<noteq> ''class'' \<and> toString (getProperty ps (getName p)) \<noteq> None \<Longrightarrow>
   \<exists>gv. givenValues (concat (map (\<lambda>p. queryValues p ps) qps)) = Some gv
        \<and> (\<forall>kv \<in> set gv. toString (snd kv) \<noteq> None)"
proof (induction qps)
  case Nil
  then show ?case by simp
next
  case (Cons p qps)
  then obtain gv where "givenValues (concat (map (\<lambda>p. queryValues p ps) qps)) = Some gv"
    "\<forall>kv \<in> set gv. toString (snd kv) \<noteq> None" by auto
  with Cons.prems show ?case by (auto simp: queryValues_def)
qed

lemma given_queryPairs: "\<forall>kv \<in> set kvs. toString (snd kv) \<noteq> None \<Longrightarrow> queryPairs kvs \<noteq> None"
  by (induction kvs) (auto simp: queryPair_def encodeURIComponent_def split: option.splits)

lemma resolvedUrl_path:
  assumes t: "templateLiteral (\<lambda>n. toString (getProperty ps n)) (pieces (getFullPath X r)) = Some p"
      and q: "\<forall>prm \<in> set (parsedParameters (parseRouteControllerAction X r)).
                query prm \<longrightarrow> propertyType (property prm) \<noteq> ''class''
                               \<and> toString (getProperty ps (getName prm)) \<noteq> None"
      and nq: "CHR ''?'' \<notin> set p"
  shows "\<exists>u. resolvedUrl X r ps = Some u \<and> requestPath u = p"
proof -
  let ?qps = "filter query (parsedParameters (parseRouteControllerAction X r))"
  have "\<forall>prm \<in> set ?qps. propertyType (property prm) \<noteq> ''class''
          \<and> toString (getProperty ps (getName prm)) \<noteq> None"
    using q by auto
  from given_queryValues [OF this] obtain gv where
    gv: "givenValues (concat (map (\<lambda>p. queryValues p ps) ?qps)) = Some gv"
    and s: "\<forall>kv \<in> set gv. toString (snd kv) \<noteq> None" by blast
  have "\<forall>kv \<in> set (filter (\<lambda>kv. snd kv \<noteq> JUndefined) gv). toString (snd kv) \<noteq> None"
    using s by simp
  from given_queryPairs [OF this] obtain qs where
    qs: "queryPairs (filter (\<lambda>kv. snd kv \<noteq> JUndefined) gv) = Some qs" by auto
  have u: "resolvedUrl X r ps = Some (p @ (if qs = [] then [] else ''?'' @ joinWith ''&'' qs))"
    using t gv qs by (simp add: resolvedUrl_def definedQueryValues_def)
  have "requestPath (p @ (if qs = [] then [] else ''?'' @ joinWith ''&'' qs)) = p"
    using nq by (simp add: requestPath_plain requestPath_append)
  with u show ?thesis by simp
qed

lemma resolveUrl_pair:
  assumes cache: "resolveFn rt = None \<or> resolveFn rt = Some f"
      and built: "buildUrlResolver X (routes rt) = Inr f"
      and i: "i < length (routes rt)" "name (routes rt ! i) = n"
      and least: "\<forall>j<i. name (routes rt ! j) \<noteq> n"
  shows "resolveUrl X n ps rt
         = (case resolvedUrl X (routes rt ! i) ps of None \<Rightarrow> Inl ValueOutsideModel | Some u \<Rightarrow> Inr u,
            rt\<lparr>resolveFn := Some f\<rparr>)"
  using resolveUrl_nth [OF cache built i least, of ps] resolveUrl_current [OF cache built, of n ps]
  by (simp add: runUrlCase_resolved)

text \<open>
  C6 (as the code has it). Take a route that is the first registered under its name;
  whose template has no syntax characters of a regular expression outside its tokens;
  whose token expressions (the default one or the route's own) are regular expressions
  without parentheses; whose tokens are distinct and are exactly the names of the
  handler's parameters; none of whose parameters is declared a class-typed query
  parameter; and for a request whose converted values print back as the text captured
  from its path (as the values of parameters of type \<open>any\<close> always do). If the request is
  dispatched to the route and the arguments are extracted, then resolving the route's
  name with these arguments on the router as the dispatch left it gives a URL whose
  path is the path of the request, and a request for that URL with the same method, on
  the router as the resolution left it, is dispatched to the same route and yields the
  same arguments. The router is one whose dispatcher and resolver are unset or compiled
  from its present routes; the arguments are those the parameter function returns when
  called after its dispatch, none for a handler without parameters.
\<close>

theorem resolveUrl_round_trip:
  assumes cache: "fn rt = None \<or> fn rt = Some cs"
      and built: "build X (routes rt) = Inr cs"
      and ucache: "resolveFn rt = None \<or> resolveFn rt = Some f"
      and ubuilt: "buildUrlResolver X (routes rt) = Inr f"
      and i: "i < length (routes rt)"
      and first: "\<forall>j<i. name (routes rt ! j) \<noteq> name (routes rt ! i)"
      and simple: "simpleRoute X (routes rt ! i)"
      and tokens: "distinct (tokenNames (getFullPath X (routes rt ! i)))"
      and names: "distinct (map propertyName (methodProperties (routes rt ! i)))"
      and bound: "set (map propertyName (methodProperties (routes rt ! i)))
                  = set (tokenNames (getFullPath X (routes rt ! i)))"
      and noclass: "\<forall>prm \<in> set (parsedParameters (parseRouteControllerAction X (routes rt ! i))).
                      query prm \<longrightarrow> propertyType (property prm) \<noteq> ''class''"
      and prints: "printsBack X (routes rt ! i) (requestPath (getUrl request))"
      and disp: "resolveRequest X request rt = (Inr (Some res), rt1)"
      and idx: "routeIndex res = i"
      and args: "extractedParameters res (contextMatch rt1) ij = Inr args"
  shows "\<exists>u rt2. resolveUrl X (name (routes rt ! i))
                    (zip (map propertyName (methodProperties (routes rt ! i))) args) rt1 = (Inr u, rt2)
            \<and> requestPath u = requestPath (getUrl request)
            \<and> (\<forall>b. \<exists>res' rt3.
                  resolveRequest X \<lparr>getMethod = getMethod request, getUrl = u, requestBody = b\<rparr> rt2
                    = (Inr (Some res'), rt3)
                  \<and> routeIndex res' = i \<and> routeConfig res' = routeConfig res
                  \<and> extractedParameters res' (contextMatch rt3) ij = Inr args)"
proof -
  let ?r = "routes rt ! i"
  let ?pr = "parseRouteControllerAction X ?r"
  let ?full = "getFullPath X ?r"
  let ?props = "methodProperties ?r"
  let ?ns = "map propertyName ?props"
  let ?m = "toLowerCase (getMethod request)" and ?p = "requestPath (getUrl request)"
  let ?ps = "zip ?ns args"
  let ?mv = "if fn rt = None then None else contextMatch rt"
  let ?q = "requestQuery X (getUrl request)"
  have rr: "resolveRequest X request rt
            = (Inr (fst (dispatch X cs request ?mv)),
               rt\<lparr>fn := Some cs, contextMatch := snd (dispatch X cs request ?mv)\<rparr>)"
    using cache built by (rule resolveRequest_current)
  from disp rr have d: "fst (dispatch X cs request ?mv) = Some res"
    and rt1: "rt1 = rt\<lparr>fn := Some cs, contextMatch := snd (dispatch X cs request ?mv)\<rparr>"
    by simp_all
  from d obtain sel where sel: "selectRoute ?m ?p 0 cs = Some sel" and res: "res = resolution X request sel"
    by (auto simp: dispatch_select)
  obtain k c caps where s3: "sel = (k, c, caps)" by (cases sel) auto
  have k: "k = i" using idx res s3 by (simp add: resolution_def)
  from selectRoute_Some [OF sel [unfolded s3]] k have
    c: "c = cs ! i" and mt: "runMatcher (compiledMatcher c) ?p = Some caps" by auto
  have code: "getRouteCode X ?r = Inr c"
    using compileRoutes_nth [OF build_Inr [OF built] i] c by simp
  have rc: "routeCaptures X ?r ?p = Some caps"
    using code mt by (simp add: routeCaptures_def)
  have cp: "compiledParsed c = ?pr" using code by (rule getRouteCode_parsed)
  have cm1: "contextMatch rt1 = matchAfter ?m ?p cs ?mv"
    using rt1 by (simp add: dispatch_match)
  have after: "matchAfter ?m ?p cs mv = Some caps" if "?props \<noteq> []" for mv
  proof -
    from getRouteCode_matcher [OF code that] obtain re where
      "compiledMatcher c = PrefixRegexMatch (literalPrefix ?full) re" by blast
    from matchAfter_selected [OF sel [unfolded s3] this] show ?thesis .
  qed
  have rp: "resolvedParameters (resolution X rq sel)
            = (if ?props = [] then None else Some (parametersFunction X ?pr (requestQuery X (getUrl rq)) (requestBody rq)))"
    for rq
    using s3 cp by (simp add: resolution_def parsedParameters_empty)
  have core: "length args = length ?props
              \<and> (\<forall>k<length args. toString (args ! k) \<noteq> None)
              \<and> templateLiteral (\<lambda>n. toString (getProperty ?ps n)) (pieces ?full) = Some ?p
              \<and> (?props \<noteq> [] \<longrightarrow> pathBoundOnly (bindings ?pr)
                   \<and> parametersFunction X ?pr ?q (requestBody request) (Some caps) ij = Inr args)"
  proof (cases "?props = []")
    case True
    then have a: "args = []"
      using args res rp [of request] by (simp add: extractedParameters_def)
    have tf: "tokenNames ?full = []" using bound True by simp
    have "compiledMatcher c = ExactMatch ?full"
      using code True by (simp add: getRouteCode_pattern split: sum.splits) auto
    with mt have "?p = ?full" by (simp add: runMatcher_def split: if_splits)
    then show ?thesis
      using True a pieces_tokenfree [OF tf] by (simp add: templateLiteral_literal)
  next
    case False
    then have pf: "parametersFunction X ?pr ?q (requestBody request) (Some caps) ij = Inr args"
      using args res rp [of request] cm1 after [OF False] by (simp add: extractedParameters_def)
    from round_trip_core [OF simple tokens names bound False rc prints pf] pf False
    show ?thesis by simp
  qed
  then have la: "length args = length ?props"
    and strs: "\<forall>k<length args. toString (args ! k) \<noteq> None"
    and tl: "templateLiteral (\<lambda>n. toString (getProperty ?ps n)) (pieces ?full) = Some ?p"
    by simp_all
  have qv: "\<forall>prm \<in> set (parsedParameters ?pr).
              query prm \<longrightarrow> propertyType (property prm) \<noteq> ''class''
                             \<and> toString (getProperty ?ps (getName prm)) \<noteq> None"
  proof (intro ballI impI)
    fix prm assume prm: "prm \<in> set (parsedParameters ?pr)" and q: "query prm"
    have lp: "length (parsedParameters ?pr) = length ?props"
      by (simp add: parseRouteControllerAction_def Let_def)
    from prm obtain j where j: "j < length ?props" "prm = parsedParameters ?pr ! j"
      using lp by (auto simp: in_set_conv_nth)
    have "getName prm = ?ns ! j"
      using j bindings_nth(2) [OF j(1), of X] by (simp add: getName_def)
    moreover have "getProperty ?ps (?ns ! j) = args ! j"
      using names la j(1) by (intro getProperty_zip) simp_all
    ultimately have "toString (getProperty ?ps (getName prm)) \<noteq> None"
      using strs la j(1) by simp
    with noclass prm q show "propertyType (property prm) \<noteq> ''class''
                             \<and> toString (getProperty ?ps (getName prm)) \<noteq> None" by blast
  qed
  from resolvedUrl_path [OF tl qv requestPath_no_query] obtain u where
    u: "resolvedUrl X ?r ?ps = Some u" and up: "requestPath u = ?p" by blast
  let ?rt2 = "rt1\<lparr>resolveFn := Some f\<rparr>"
  have uc1: "resolveFn rt1 = None \<or> resolveFn rt1 = Some f" using ucache rt1 by simp
  have ub1: "buildUrlResolver X (routes rt1) = Inr f" using ubuilt rt1 by simp
  have i1: "i < length (routes rt1)" "name (routes rt1 ! i) = name ?r" using i rt1 by simp_all
  have f1: "\<forall>j<i. name (routes rt1 ! j) \<noteq> name ?r" using first rt1 by simp
  have ru: "resolveUrl X (name ?r) ?ps rt1 = (Inr u, ?rt2)"
    using resolveUrl_pair [OF uc1 ub1 i1 f1, of ?ps] u rt1 by simp
  have again: "\<exists>res' rt3. resolveRequest X \<lparr>getMethod = getMethod request, getUrl = u, requestBody = b\<rparr> ?rt2
                    = (Inr (Some res'), rt3)
                  \<and> routeIndex res' = i \<and> routeConfig res' = routeConfig res
                  \<and> extractedParameters res' (contextMatch rt3) ij = Inr args" for b
  proof -
    let ?rq = "\<lparr>getMethod = getMethod request, getUrl = u, requestBody = b\<rparr>"
    let ?mv2 = "if fn ?rt2 = None then None else contextMatch ?rt2"
    let ?res' = "resolution X ?rq sel"
    let ?rt3 = "?rt2\<lparr>fn := Some cs, contextMatch := snd (dispatch X cs ?rq ?mv2)\<rparr>"
    have c2: "fn ?rt2 = None \<or> fn ?rt2 = Some cs" using rt1 by simp
    have b2: "build X (routes ?rt2) = Inr cs" using built rt1 by simp
    have r2: "resolveRequest X ?rq ?rt2 = (Inr (fst (dispatch X cs ?rq ?mv2)), ?rt3)"
      using c2 b2 by (rule resolveRequest_current)
    have d2: "fst (dispatch X cs ?rq ?mv2) = Some ?res'"
      using sel up by (simp add: dispatch_select)
    have cm3: "contextMatch ?rt3 = matchAfter ?m ?p cs ?mv2"
      using up by (simp add: dispatch_match)
    have ex: "extractedParameters ?res' (contextMatch ?rt3) ij = Inr args"
    proof (cases "?props = []")
      case True
      then show ?thesis using rp [of ?rq] la by (simp add: extractedParameters_def)
    next
      case False
      with core have pb: "pathBoundOnly (bindings ?pr)"
        and pf: "parametersFunction X ?pr ?q (requestBody request) (Some caps) ij = Inr args"
        by simp_all
      have "parametersFunction X ?pr (requestQuery X u) b (Some caps) ij
            = parametersFunction X ?pr ?q (requestBody request) (Some caps) ij"
        using pb by (rule parametersFunction_pathBound)
      then show ?thesis
        using False rp [of ?rq] pf after [OF False] unfolding cm3
        by (simp add: extractedParameters_def)
    qed
    have "routeIndex ?res' = i \<and> routeConfig ?res' = routeConfig res"
      using s3 k res by (simp add: resolution_def)
    with r2 d2 ex show ?thesis by auto
  qed
  from ru up again show ?thesis by blast
qed

lemmas number_simps =
  numberExternals_def numberRoute_def digitsValue_def extractedParameters_def

theorem resolveUrl_round_trip_witness:
  "\<exists>res rt1 u rt2 res' rt3.
      resolveRequest numberExternals \<lparr>getMethod = ''GET'', getUrl = ''/users/42?x=1'', requestBody = None\<rparr>
        (newRouter [numberRoute]) = (Inr (Some res), rt1)
    \<and> extractedParameters res (contextMatch rt1) (\<lambda>c. JNull) = Inr [JNum 42]
    \<and> resolveUrl numberExternals ''user'' [(''id'', JNum 42)] rt1 = (Inr u, rt2)
    \<and> requestPath u = ''/users/42''
    \<and> resolveRequest numberExternals \<lparr>getMethod = ''GET'', getUrl = u, requestBody = None\<rparr> rt2
        = (Inr (Some res'), rt3)
    \<and> routeIndex res' = 0
    \<and> extractedParameters res' (contextMatch rt3) (\<lambda>c. JNull) = Inr [JNum 42]"
proof -
  let ?X = numberExternals
  let ?rt = "newRouter [numberRoute]"
  let ?rq = "\<lparr>getMethod = ''GET'', getUrl = ''/users/42?x=1'', requestBody = None\<rparr>"
  let ?ij = "\<lambda>c::ClassRef option. JNull"
  obtain cs where built: "build ?X (routes ?rt) = Inr cs"
    by (simp add: number_simps example_simps dispatch_simps regex_simps)
  obtain f where ubuilt: "buildUrlResolver ?X (routes ?rt) = Inr f"
    by (simp add: number_simps example_simps resolver_simps dispatch_simps isDigitChar_def)
  have cache: "fn ?rt = None \<or> fn ?rt = Some cs" by (simp add: newRouter_def)
  have ucache: "resolveFn ?rt = None \<or> resolveFn ?rt = Some f" by (simp add: newRouter_def)
  have i: "0 < length (routes ?rt)" by (simp add: newRouter_def)
  have first: "\<forall>j<0. name (routes ?rt ! j) \<noteq> name (routes ?rt ! 0)" by simp
  have r0: "routes ?rt ! 0 = numberRoute" by (simp add: newRouter_def)
  have simple: "simpleRoute ?X (routes ?rt ! 0)"
    unfolding r0
    by (simp add: simpleRoute_def simpleExpression_def parenFree_def tokenExpression_def plainPieces_def
        isSyntaxChar_def number_simps example_simps regex_simps)
  have tokens: "distinct (tokenNames (getFullPath ?X (routes ?rt ! 0)))"
    unfolding r0 by (simp add: number_simps example_simps)
  have names: "distinct (map propertyName (methodProperties (routes ?rt ! 0)))"
    unfolding r0 by (simp add: number_simps example_simps)
  have bound: "set (map propertyName (methodProperties (routes ?rt ! 0)))
               = set (tokenNames (getFullPath ?X (routes ?rt ! 0)))"
    unfolding r0 by (simp add: number_simps example_simps)
  have noclass: "\<forall>prm \<in> set (parsedParameters (parseRouteControllerAction ?X (routes ?rt ! 0))).
                   query prm \<longrightarrow> propertyType (property prm) \<noteq> ''class''"
    unfolding r0 by (simp add: number_simps example_simps)
  have prints: "printsBack ?X (routes ?rt ! 0) (requestPath (getUrl ?rq))"
    unfolding r0
    by (simp add: printsBack_def number_simps example_simps dispatch_simps regex_simps
        argumentConverter_def captured_def toString_def)
  have "\<exists>res rt1. resolveRequest ?X ?rq ?rt = (Inr (Some res), rt1) \<and> routeIndex res = 0
           \<and> extractedParameters res (contextMatch rt1) ?ij = Inr [JNum 42]"
    by (simp add: number_simps example_simps dispatch_simps regex_simps parameter_simps isNumeric_def)
  then obtain res rt1 where disp: "resolveRequest ?X ?rq ?rt = (Inr (Some res), rt1)"
    and idx: "routeIndex res = 0"
    and args: "extractedParameters res (contextMatch rt1) ?ij = Inr [JNum 42]" by blast
  from resolveUrl_round_trip [OF cache built ucache ubuilt i first simple tokens names bound noclass
      prints disp idx args]
  obtain u rt2 where
    u: "resolveUrl ?X (name (routes ?rt ! 0))
              (zip (map propertyName (methodProperties (routes ?rt ! 0))) [JNum 42]) rt1 = (Inr u, rt2)"
    and p: "requestPath u = requestPath (getUrl ?rq)"
    and again: "\<forall>b. \<exists>res' rt3. resolveRequest ?X \<lparr>getMethod = getMethod ?rq, getUrl = u, requestBody = b\<rparr> rt2
                    = (Inr (Some res'), rt3)
                  \<and> routeIndex res' = 0 \<and> routeConfig res' = routeConfig res
                  \<and> extractedParameters res' (contextMatch rt3) ?ij = Inr [JNum 42]"
    by blast
  from u have u': "resolveUrl ?X ''user'' [(''id'', JNum 42)] rt1 = (Inr u, rt2)"
    unfolding r0 by (simp add: numberRoute_def exampleRoute_def exampleProperty_def)
  from p have p': "requestPath u = ''/users/42''" by (simp add: requestPath_def)
  from again obtain res' rt3 where
    "resolveRequest ?X \<lparr>getMethod = getMethod ?rq, getUrl = u, requestBody = None\<rparr> rt2 = (Inr (Some res'), rt3)"
    "routeIndex res' = 0" "extractedParameters res' (contextMatch rt3) ?ij = Inr [JNum 42]"
    by blast
  with disp args u' p' show ?thesis by auto
qed

text \<open>
  C6 as stated fails: two routes are named \<open>item\<close>, at \<open>/a/:x\<close> and at \<open>/b/:x\<close>. The
  request \<open>/b/5\<close> is dispatched to the second with \<open>x = 5\<close>; the name resolves with
  \<open>x = 5\<close> to \<open>/a/5\<close>, the URL of the first; and \<open>/a/5\<close> is dispatched to the first
  route, not to the route the values came from.
\<close>

theorem round_trip_duplicate_name_counterexample:
  "(case resolveRequest exampleExternals \<lparr>getMethod = ''GET'', getUrl = ''/b/5'', requestBody = None\<rparr>
                (newRouter [exampleRoute ''item'' ''/a/:x'' [exampleProperty ''x'' ''any''],
                            exampleRoute ''item'' ''/b/:x'' [exampleProperty ''x'' ''any'']]) of
      (Inr (Some res), rt1) \<Rightarrow>
        routeIndex res = 1
        \<and> extractedParameters res (contextMatch rt1) (\<lambda>c. JNull) = Inr [JStr ''5'']
        \<and> fst (resolveUrl exampleExternals ''item'' [(''x'', JStr ''5'')] rt1) = Inr ''/a/5''
        \<and> map_sum id (map_option routeIndex)
             (fst (resolveRequest exampleExternals \<lparr>getMethod = ''GET'', getUrl = ''/a/5'', requestBody = None\<rparr>
                (snd (resolveUrl exampleExternals ''item'' [(''x'', JStr ''5'')] rt1)))) = Inr (Some 0)
    | _ \<Rightarrow> False)"
  by (simp add: example_simps dispatch_simps regex_simps parameter_simps resolver_simps getProperty_def
      extractedParameters_def)

text \<open>
  The other conditions of the round trip are needed as well. Each of the following
  round trips ends at no route or at another route: a template with a syntax character
  outside its tokens (\<open>/:id/a+\<close> matches \<open>/5/aaa\<close>, and the URL is \<open>/5/a+\<close>); a token
  expression with a group of its own, which shifts the groups of the tokens after it;
  a token that no parameter binds, printed as \<open>undefined\<close>; a converted value that does
  not print back (\<open>007\<close> read as the number 7), where an earlier route has the printed
  path; a token that occurs twice, where an earlier route has the path with the last
  value in both places.
\<close>

lemma round_trip_needs_plain_text:
  "roundTrip exampleExternals [exampleRoute ''r'' ''/:id/a+'' [exampleProperty ''id'' ''any'']]
     \<lparr>getMethod = ''GET'', getUrl = ''/5/aaa'', requestBody = None\<rparr>
   = Some (0, [JStr ''5''], ''/5/a+'', None)"
  by (simp add: roundTrip_def example_simps dispatch_simps regex_simps parameter_simps resolver_simps
      getProperty_def extractedParameters_def)

lemma round_trip_needs_expressions_without_groups:
  "roundTrip exampleExternals
     [(exampleRoute ''r'' ''/:x/:y'' [exampleProperty ''x'' ''any'', exampleProperty ''y'' ''any''])
        \<lparr>parameterRegularExpressions := [''x'' \<mapsto> ''(a|b)c'', ''y'' \<mapsto> ''[0-9]+'']\<rparr>]
     \<lparr>getMethod = ''GET'', getUrl = ''/ac/12'', requestBody = None\<rparr>
   = Some (0, [JStr ''ac'', JStr ''a''], ''/ac/a'', None)"
  by (simp add: roundTrip_def example_simps dispatch_simps regex_simps parameter_simps resolver_simps
      getProperty_def extractedParameters_def)

lemma round_trip_needs_bound_tokens:
  "roundTrip exampleExternals
     [(exampleRoute ''r'' ''/a/:x/:y'' [exampleProperty ''y'' ''any''])
        \<lparr>parameterRegularExpressions := [''x'' \<mapsto> ''[0-9]+'']\<rparr>]
     \<lparr>getMethod = ''GET'', getUrl = ''/a/1/2'', requestBody = None\<rparr>
   = Some (0, [JStr ''2''], ''/a/undefined/2'', None)"
  by (simp add: roundTrip_def example_simps dispatch_simps regex_simps parameter_simps resolver_simps
      getProperty_def extractedParameters_def)

lemma round_trip_needs_printing_back:
  "roundTrip numberExternals [exampleRoute ''seven'' ''/users/7'' [], numberRoute]
     \<lparr>getMethod = ''GET'', getUrl = ''/users/007'', requestBody = None\<rparr>
   = Some (1, [JNum 7], ''/users/7'', Some (0, []))"
  by (simp add: roundTrip_def number_simps example_simps dispatch_simps regex_simps parameter_simps
      resolver_simps getProperty_def isNumeric_def)

lemma round_trip_needs_distinct_tokens:
  "roundTrip exampleExternals
     [exampleRoute ''two'' ''/2/2'' [], exampleRoute ''dup'' ''/:a/:a'' [exampleProperty ''a'' ''any'']]
     \<lparr>getMethod = ''GET'', getUrl = ''/1/2'', requestBody = None\<rparr>
   = Some (1, [JStr ''2''], ''/2/2'', Some (0, []))"
  by (simp add: roundTrip_def example_simps dispatch_simps regex_simps parameter_simps resolver_simps
      getProperty_def extractedParameters_def)

end
